theory Spec2Isabelle
  imports Complex_Main "HOL-Library.AList"
begin

section \<open>ThreeTilemapRectLayer: the quad-batching tile renderer\<close>

text \<open>
  A shallow embedding of \<^verbatim>\<open>ThreeTilemapRectLayer\<close> (ThreeTilemap.js): the rect
  accumulator (\<^verbatim>\<open>addRect\<close>, \<^verbatim>\<open>clear\<close>), the array-texture scan
  (\<^verbatim>\<open>_ensureArrayTexture\<close>), the classifier and sorter of \<^verbatim>\<open>_flush\<close>, the
  unified, shadow and water mesh builders and the animation fast path
  (\<^verbatim>\<open>_updateAnimUVs\<close>).

  Conventions of the model.
  \<^item> JavaScript numbers that carry coordinates are exact rationals (\<open>rat\<close>); the
    rounding of a store into a \<^verbatim>\<open>Float32Array\<close> is not modelled. Set numbers, kinds
    and draw layers are integers.
  \<^item> A \<^verbatim>\<open>Float32Array\<close> is a list of fixed length. A store beyond its length is
    ignored, as \<open>xs[i := v]\<close> does.
  \<^item> A JavaScript object used as a dictionary is an association list in insertion
    order; \<^verbatim>\<open>obj[k] = v\<close> is \<open>AList.update\<close> (replace in place, or append).
  \<^item> Materials, shader text, draw order and the scene graph are left out: no property
    below reads them. A mesh keeps its geometry attributes, its visibility, its
    \<^verbatim>\<open>userData\<close> and the texture bound to its material.
\<close>

subsection \<open>Typed arrays\<close>

text \<open>Consecutive stores \<^verbatim>\<open>arr[off] = v0; arr[off + 1] = v1; ...\<close> in this order.\<close>

fun write_block :: "'a list \<Rightarrow> nat \<Rightarrow> 'a list \<Rightarrow> 'a list" where
  "write_block arr off [] = arr"
| "write_block arr off (v # vs) = write_block (arr[off := v]) (Suc off) vs"

text \<open>
  A loop \<^verbatim>\<open>for (ri = 0; ri < n; ri++)\<close> whose body stores the block of values of
  round \<open>ri\<close> at offset \<open>ri * B\<close>; the blocks are given in loop order.
\<close>

fun fill_blocks :: "'a list \<Rightarrow> nat \<Rightarrow> nat \<Rightarrow> 'a list list \<Rightarrow> 'a list" where
  "fill_blocks arr B ri [] = arr"
| "fill_blocks arr B ri (q # qs) = fill_blocks (write_block arr (ri * B) q) B (Suc ri) qs"

text \<open>
  \<^verbatim>\<open>dst.set(src)\<close>: copy \<open>src\<close> to the front of \<open>dst\<close>. JavaScript raises a
  RangeError when \<open>src\<close> is longer than \<open>dst\<close>; every caller below passes a
  destination at least as long (lemma \<open>grow_set_fits\<close>).
\<close>

definition f32_set :: "'a list \<Rightarrow> 'a list \<Rightarrow> 'a list" where
  "f32_set dst src = src @ drop (length src) dst"

text \<open>\<^verbatim>\<open>arr[i] || 0\<close> on a plain array: a missing entry reads as \<open>0\<close>.\<close>

definition or0 :: "'a::zero list \<Rightarrow> nat \<Rightarrow> 'a" where
  "or0 xs i = (if i < length xs then xs ! i else 0)"

text \<open>\<^verbatim>\<open>kindArr[i] != null ? kindArr[i] : -1\<close>.\<close>

definition kind_at :: "int list \<Rightarrow> nat \<Rightarrow> int" where
  "kind_at xs i = (if i < length xs then xs ! i else - 1)"

text \<open>\<^verbatim>\<open>dict[k] || []\<close>.\<close>

definition or_nil :: "('k \<times> 'a list) list \<Rightarrow> 'k \<Rightarrow> 'a list" where
  "or_nil al k = (case map_of al k of None \<Rightarrow> [] | Some xs \<Rightarrow> xs)"

text \<open>
  The order in which \<^verbatim>\<open>for (var k in obj)\<close> visits the keys of a dictionary keyed by
  set number: array-index keys (\<open>0 \<le> k < 2^32 - 1\<close>) ascending, then the other keys
  (\<open>-1\<close> among them) in insertion order.
\<close>

definition is_array_index :: "int \<Rightarrow> bool" where
  "is_array_index k = (0 \<le> k \<and> k < 4294967295)"

definition own_entries :: "(int \<times> 'a) list \<Rightarrow> (int \<times> 'a) list" where
  "own_entries al =
     sort_key fst (filter (\<lambda>p. is_array_index (fst p)) al) @
     filter (\<lambda>p. \<not> is_array_index (fst p)) al"

subsection \<open>Data model\<close>

definition TILESET_TEX_SIZE :: rat where
  "TILESET_TEX_SIZE = 768"

definition TILESET_LAYER_COUNT :: nat where
  "TILESET_LAYER_COUNT = 9"

record rect_set =
  positions :: "rat list"
  uvs :: "rat list"
  count :: nat
  capacity :: nat

record image =
  img_width :: nat
  img_height :: nat
  img_pixels :: nat

text \<open>
  A \<^verbatim>\<open>THREE.Texture\<close>: its image, its \<^verbatim>\<open>version\<close>, and whether its \<^verbatim>\<open>minFilter\<close> is
  \<^verbatim>\<open>THREE.NearestFilter\<close>.
\<close>

record texture =
  tex_image :: "image option"
  tex_version :: nat
  tex_nearest :: bool

text \<open>The shapes of bitmap that \<^verbatim>\<open>_extractThreeTexture\<close> tells apart.\<close>

datatype bitmap =
    BaseTexture texture
  | ThreeTexture texture
  | IsTexture texture
  | OtherBitmap

text \<open>
  A value of a \<^verbatim>\<open>uMin/uMax/vMin/vMax\<close> accumulator: these start at
  \<^verbatim>\<open>Infinity\<close> or \<^verbatim>\<open>-Infinity\<close>.
\<close>

datatype ext = NegInf | Fin rat | PosInf

text \<open>
  The key of a mesh in \<^verbatim>\<open>_meshes\<close>: \<^verbatim>\<open>'-1'\<close> for the shadow mesh, and
  \<^verbatim>\<open>setNumber + '_' + ('wf' or 'w') + '_' + kind\<close> for a water mesh.
\<close>

datatype mesh_key = ShadowKey | WaterKey int bool int

record mesh =
  m_position :: "rat list option"
  m_normal :: "rat list option"
  m_uv :: "rat list option"
  m_aTextureLayer :: "int list option"
  m_aUvBounds :: "ext list option"
  m_visible :: bool
  m_maxDrawZ :: int
  m_isWaterMesh :: bool
  m_isWaterfall :: bool
  m_a1Kinds :: "int list"
  m_map :: "texture option"

record unified_rect =
  setNumber :: int
  index :: nat
  drawZ :: int

text \<open>
  \<^verbatim>\<open>_arrayTexture\<close> with \<^verbatim>\<open>_layerLoaded\<close> and \<^verbatim>\<open>_layerImageVersions\<close>:
  the three fields are null until \<^verbatim>\<open>_ensureArrayTexture\<close> creates them together, so
  they are one optional record here. A layer of the pixel data is \<open>None\<close> while it
  is zero and \<open>Some img\<close> after \<open>img\<close> was rasterised into it.
\<close>

record array_texture =
  at_data :: "image option list"
  at_needsUpdate :: bool
  layerLoaded :: "bool list"
  layerImageVersions :: "nat list"

record layer =
  rectData :: "(int \<times> rect_set) list"
  animData :: "(int \<times> rat list) list"
  kindData :: "(int \<times> int list) list"
  drawZData :: "(int \<times> int list) list"
  currentDrawZ :: int
  bitmaps :: "bitmap option list"
  meshes :: "(mesh_key \<times> mesh) list"
  needsRebuild :: bool
  tileAnimX :: rat
  tileAnimY :: rat
  lastTileAnimX :: rat
  lastTileAnimY :: rat
  arrayTexture :: "array_texture option"
  unifiedMesh :: "mesh option"
  unifiedRects :: "unified_rect list option"

text \<open>The state the constructor \<^verbatim>\<open>ThreeTilemapRectLayer()\<close> leaves.\<close>

definition new_layer :: layer where
  "new_layer = \<lparr>rectData = [], animData = [], kindData = [], drawZData = [],
     currentDrawZ = 0, bitmaps = [], meshes = [], needsRebuild = False,
     tileAnimX = 0, tileAnimY = 0, lastTileAnimX = 0, lastTileAnimY = 0,
     arrayTexture = None,
     unifiedMesh = None, unifiedRects = None\<rparr>"

subsection \<open>Rect accumulator\<close>

definition new_rect_set :: rect_set where
  "new_rect_set = \<lparr>positions = replicate (1000 * 12) 0, uvs = replicate (1000 * 12) 0,
     count = 0, capacity = 1000\<rparr>"

text \<open>The capacity growth of \<^verbatim>\<open>addRect\<close> (\<^verbatim>\<open>if (idx >= data.capacity) { ... }\<close>).\<close>

definition grow :: "rect_set \<Rightarrow> rect_set" where
  "grow data =
     (if count data \<ge> capacity data then
        (let newCapacity = capacity data * 2
         in data\<lparr>positions := f32_set (replicate (newCapacity * 6 * 2) 0) (positions data),
                 uvs := f32_set (replicate (newCapacity * 6 * 2) 0) (uvs data),
                 capacity := newCapacity\<rparr>)
      else data)"

text \<open>The twelve position stores and the twelve UV stores of one quad, in source order.\<close>

definition quad_coords :: "rat \<Rightarrow> rat \<Rightarrow> rat \<Rightarrow> rat \<Rightarrow> rat list" where
  "quad_coords x y w h = [x, y, x + w, y, x, y + h, x + w, y, x + w, y + h, x, y + h]"

definition put_rect :: "rect_set \<Rightarrow> rat \<Rightarrow> rat \<Rightarrow> rat \<Rightarrow> rat \<Rightarrow> rat \<Rightarrow> rat \<Rightarrow> rect_set" where
  "put_rect data0 u v x y w h =
     (let idx = count data0;
          data = grow data0;
          pi = idx * 12
      in data\<lparr>positions := write_block (positions data) pi (quad_coords x y w h),
              uvs := write_block (uvs data) pi (quad_coords u v w h),
              count := Suc idx\<rparr>)"

text \<open>
  \<^verbatim>\<open>addRect(setNumber, u, v, x, y, w, h, animX, animY, a1Kind)\<close>. An omitted optional
  argument is \<open>None\<close>. A side array is created with its rect set; \<open>or_nil\<close> reads it
  (in a state reached from the constructor the four dictionaries have the same keys,
  lemma \<open>layer_inv_addRect\<close>).
\<close>

definition addRect ::
  "layer \<Rightarrow> int \<Rightarrow> rat \<Rightarrow> rat \<Rightarrow> rat \<Rightarrow> rat \<Rightarrow> rat \<Rightarrow> rat \<Rightarrow> rat option \<Rightarrow> rat option \<Rightarrow> int option \<Rightarrow> layer" where
  "addRect s0 sn u v x y w h animX animY a1Kind =
     (let s = (case map_of (rectData s0) sn of
                 None \<Rightarrow> s0\<lparr>rectData := AList.update sn new_rect_set (rectData s0),
                             animData := AList.update sn [] (animData s0),
                             kindData := AList.update sn [] (kindData s0),
                             drawZData := AList.update sn [] (drawZData s0)\<rparr>
               | Some _ \<Rightarrow> s0);
          data = (case map_of (rectData s) sn of None \<Rightarrow> new_rect_set | Some d \<Rightarrow> d)
      in s\<lparr>rectData := AList.update sn (put_rect data u v x y w h) (rectData s),
            animData := AList.update sn
              (or_nil (animData s) sn @
                 [case animX of None \<Rightarrow> 0 | Some a \<Rightarrow> a, case animY of None \<Rightarrow> 0 | Some a \<Rightarrow> a])
              (animData s),
            kindData := AList.update sn
              (or_nil (kindData s) sn @ [case a1Kind of None \<Rightarrow> - 1 | Some k \<Rightarrow> k])
              (kindData s),
            drawZData := AList.update sn (or_nil (drawZData s) sn @ [currentDrawZ s]) (drawZData s),
            needsRebuild := True\<rparr>)"

definition clear :: "layer \<Rightarrow> layer" where
  "clear s = s\<lparr>rectData := map (\<lambda>(k, d). (k, d\<lparr>count := 0\<rparr>)) (rectData s),
               animData := map (\<lambda>(k, a). (k, [])) (animData s),
               kindData := map (\<lambda>(k, a). (k, [])) (kindData s),
               drawZData := map (\<lambda>(k, a). (k, [])) (drawZData s),
               unifiedRects := None,
               needsRebuild := True\<rparr>"

subsection \<open>Texture array manager\<close>

fun extractThreeTexture :: "bitmap option \<Rightarrow> texture option" where
  "extractThreeTexture None = None"
| "extractThreeTexture (Some (BaseTexture t)) = Some t"
| "extractThreeTexture (Some (ThreeTexture t)) = Some t"
| "extractThreeTexture (Some (IsTexture t)) = Some t"
| "extractThreeTexture (Some OtherBitmap) = None"

text \<open>\<^verbatim>\<open>this._bitmaps[i]\<close>: \<open>None\<close> beyond the bound images.\<close>

definition bitmap_at :: "bitmap option list \<Rightarrow> nat \<Rightarrow> bitmap option" where
  "bitmap_at bms i = (if i < length bms then bms ! i else None)"

text \<open>
  \<^verbatim>\<open>setBitmaps(bitmaps)\<close>: the pixel data is zeroed and every loaded flag reset.
\<close>

definition setBitmaps :: "layer \<Rightarrow> bitmap option list \<Rightarrow> layer" where
  "setBitmaps s bms =
     s\<lparr>bitmaps := bms,
       arrayTexture :=
         (case arrayTexture s of
            None \<Rightarrow> None
          | Some t \<Rightarrow> Some (t\<lparr>at_data := map (\<lambda>_. None) (at_data t),
                               at_needsUpdate := True,
                               layerLoaded := map (\<lambda>_. False) (layerLoaded t)\<rparr>)),
       needsRebuild := True\<rparr>"

text \<open>
  The state of the scan loop of \<^verbatim>\<open>_ensureArrayTexture\<close>: the layers copied so far
  (one entry for each call of \<^verbatim>\<open>_copyImageToLayer\<close>), the local \<^verbatim>\<open>updated\<close> and
  the texture.
\<close>

record scan =
  sc_copies :: "nat list"
  sc_updated :: bool
  sc_tex :: array_texture

text \<open>One round \<open>i\<close> of the loop; each \<^verbatim>\<open>continue\<close> returns the state unchanged.\<close>

definition scan_layer :: "bitmap option list \<Rightarrow> scan \<Rightarrow> nat \<Rightarrow> scan" where
  "scan_layer bms st i =
     (if i \<ge> length bms \<or> bitmap_at bms i = None then st
      else
        (case extractThreeTexture (bitmap_at bms i) of
           None \<Rightarrow> st
         | Some tex \<Rightarrow>
             (case tex_image tex of
                None \<Rightarrow> st
              | Some img \<Rightarrow>
                  if img_width img = 0 \<or> img_height img = 0 then st
                  else
                    (let version = tex_version tex; t = sc_tex st
                     in if i < length (layerLoaded t) \<and> layerLoaded t ! i \<and>
                           i < length (layerImageVersions t) \<and>
                           layerImageVersions t ! i = version
                        then st
                        else st\<lparr>sc_copies := sc_copies st @ [i],
                                sc_updated := True,
                                sc_tex := t\<lparr>at_data := (at_data t)[i := Some img],
                                             layerLoaded := (layerLoaded t)[i := True],
                                             layerImageVersions := (layerImageVersions t)[i := version]\<rparr>\<rparr>))))"

definition new_array_texture :: array_texture where
  "new_array_texture =
     \<lparr>at_data = replicate TILESET_LAYER_COUNT None, at_needsUpdate = True,
      layerLoaded = replicate TILESET_LAYER_COUNT False,
      layerImageVersions = replicate TILESET_LAYER_COUNT 0\<rparr>"

text \<open>The scan of the nine layers, from the texture \<open>t\<close> that exists when the loop starts.\<close>

definition scan_layers :: "bitmap option list \<Rightarrow> array_texture \<Rightarrow> scan" where
  "scan_layers bms t =
     foldl (scan_layer bms) \<lparr>sc_copies = [], sc_updated = False, sc_tex = t\<rparr>
       [0..<TILESET_LAYER_COUNT]"

text \<open>
  \<^verbatim>\<open>_ensureArrayTexture()\<close>, returning also the list of layers it copied.
\<close>

definition ensureArrayTexture :: "layer \<Rightarrow> nat list \<times> layer" where
  "ensureArrayTexture s =
     (let t0 = (case arrayTexture s of None \<Rightarrow> new_array_texture | Some t \<Rightarrow> t);
          st = scan_layers (bitmaps s) t0;
          t1 = (if sc_updated st then (sc_tex st)\<lparr>at_needsUpdate := True\<rparr> else sc_tex st)
      in (sc_copies st, s\<lparr>arrayTexture := Some t1\<rparr>))"

subsection \<open>Environment\<close>

text \<open>
  The collaborators \<^verbatim>\<open>_flush\<close> reads. \<^verbatim>\<open>ThreeWaterShader\<close> is an opaque module:
  three predicates, or \<open>None\<close> when the global is undefined. \<open>mode3d\<close> is
  \<^verbatim>\<open>typeof ConfigManager !== 'undefined' && ConfigManager.mode3d\<close>, and
  \<open>tileLayerElevation\<close> is \<^verbatim>\<open>$dataMap && $dataMap.tileLayerElevation\<close>.
\<close>

record water_shader =
  isWaterRect :: "rat \<Rightarrow> rat \<Rightarrow> bool"
  isWaterfallRect :: "rat \<Rightarrow> rat \<Rightarrow> bool"
  isKindEnabled :: "int \<Rightarrow> bool"

record env =
  ThreeWaterShader :: "water_shader option"
  mode3d :: bool
  tileLayerElevation :: bool

subsection \<open>Shared pieces of the mesh builders\<close>

text \<open>
  \<^verbatim>\<open>this._rectData[key]\<close> for a key known to be present. (The empty set stands for
  the TypeError of a missing key; unified rects are recorded only for existing sets,
  and no operation modelled here removes a set.)
\<close>

definition rect_data_of :: "layer \<Rightarrow> int \<Rightarrow> rect_set" where
  "rect_data_of s sn =
     (case map_of (rectData s) sn of
        None \<Rightarrow> \<lparr>positions = [], uvs = [], count = 0, capacity = 0\<rparr>
      | Some d \<Rightarrow> d)"

definition updateBufferAttribute :: "'a list option \<Rightarrow> 'a list \<Rightarrow> 'a list option" where
  "updateBufferAttribute attr array =
     (case attr of
        Some a \<Rightarrow> if length a = length array then Some (f32_set a array) else Some array
      | None \<Rightarrow> Some array)"

text \<open>A mesh as \<^verbatim>\<open>new THREE.Mesh(geometry, material)\<close> leaves it, without attributes.\<close>

definition new_mesh :: mesh where
  "new_mesh = \<lparr>m_position = None, m_normal = None, m_uv = None, m_aTextureLayer = None,
     m_aUvBounds = None, m_visible = True, m_maxDrawZ = 0, m_isWaterMesh = False,
     m_isWaterfall = False, m_a1Kinds = [], m_map = None\<rparr>"

text \<open>\<^verbatim>\<open>elevationEnabled ? -drawZ * 0.01 : 0\<close>.\<close>

definition zOffset :: "bool \<Rightarrow> int \<Rightarrow> rat" where
  "zOffset elevationEnabled dz = (if elevationEnabled then - of_int dz * (1 / 100) else 0)"

text \<open>
  The eighteen position stores of rect \<open>i\<close> (inner loop \<open>j = 0..5\<close>): x and y from the
  stored quad, then the z offset.
\<close>

definition pos_block :: "rect_set \<Rightarrow> nat \<Rightarrow> rat \<Rightarrow> rat list" where
  "pos_block data i z =
     concat (map (\<lambda>j. [positions data ! (i * 12 + j * 2), positions data ! (i * 12 + j * 2 + 1), z])
       [0..<6])"

definition normal_block :: "rat list" where
  "normal_block = concat (map (\<lambda>j. [0, 0, - 1]) [0..<6::nat])"

text \<open>
  The twelve UV stores of rect \<open>i\<close> in the unified mesh. The same two statements are
  the body of the inner loop of \<^verbatim>\<open>_buildUnifiedMesh\<close> and of \<^verbatim>\<open>_updateAnimUVs\<close>;
  \<open>ax\<close> and \<open>ay\<close> are \<^verbatim>\<open>(animOffsets[i * 2] || 0) * tileAnimX\<close> and its y twin.
\<close>

definition unified_uv_block :: "rect_set \<Rightarrow> nat \<Rightarrow> rat \<Rightarrow> rat \<Rightarrow> rat list" where
  "unified_uv_block data i ax ay =
     concat (map (\<lambda>j. [(uvs data ! (i * 12 + j * 2) + ax) / TILESET_TEX_SIZE,
                         (uvs data ! (i * 12 + j * 2 + 1) + ay) / TILESET_TEX_SIZE])
       [0..<6])"

definition unified_uv_of :: "layer \<Rightarrow> rat \<Rightarrow> rat \<Rightarrow> unified_rect \<Rightarrow> rat list" where
  "unified_uv_of s tax tay rect =
     (let data = rect_data_of s (setNumber rect);
          animOffsets = or_nil (animData s) (setNumber rect);
          i = index rect;
          ax = or0 animOffsets (i * 2) * tax;
          ay = or0 animOffsets (i * 2 + 1) * tay
      in unified_uv_block data i ax ay)"

subsection \<open>Unified mesh builder\<close>

text \<open>
  \<^verbatim>\<open>_buildUnifiedMesh(allRects, tileAnimX, tileAnimY)\<close>: the four arrays are allocated
  zero-filled and written block by block in one pass over \<open>allRects\<close>; they do not
  alias, so each is its own \<open>fill_blocks\<close>. The result is the new \<^verbatim>\<open>_unifiedMesh\<close>.
\<close>

definition unified_pos_of :: "env \<Rightarrow> layer \<Rightarrow> unified_rect \<Rightarrow> rat list" where
  "unified_pos_of e s rect =
     (let data = rect_data_of s (setNumber rect);
          drawZArr = or_nil (drawZData s) (setNumber rect);
          i = index rect;
          elevationEnabled = (\<not> mode3d e \<and> tileLayerElevation e)
      in pos_block data i (zOffset elevationEnabled (or0 drawZArr i)))"

definition unified_maxDrawZ :: "layer \<Rightarrow> unified_rect list \<Rightarrow> int" where
  "unified_maxDrawZ s allRects =
     foldl (\<lambda>maxDrawZ rect.
              (let dz = or0 (or_nil (drawZData s) (setNumber rect)) (index rect)
               in if dz > maxDrawZ then dz else maxDrawZ))
       0 allRects"

definition buildUnifiedMesh :: "env \<Rightarrow> layer \<Rightarrow> unified_rect list \<Rightarrow> rat \<Rightarrow> rat \<Rightarrow> mesh option" where
  "buildUnifiedMesh e s allRects tax tay =
     (let n = length allRects
      in if n = 0 then
           (case unifiedMesh s of None \<Rightarrow> None | Some m \<Rightarrow> Some (m\<lparr>m_visible := False\<rparr>))
         else
           (let vertCount = n * 6;
                posArray = fill_blocks (replicate (vertCount * 3) 0) 18 0
                             (map (unified_pos_of e s) allRects);
                normalArray = fill_blocks (replicate (vertCount * 3) 0) 18 0
                                (map (\<lambda>rect. normal_block) allRects);
                uvArray = fill_blocks (replicate (vertCount * 2) 0) 12 0
                            (map (unified_uv_of s tax tay) allRects);
                layerArray = fill_blocks (replicate vertCount 0) 6 0
                               (map (\<lambda>rect. replicate 6 (setNumber rect)) allRects);
                maxDrawZ = unified_maxDrawZ s allRects
            in case unifiedMesh s of
                 Some m \<Rightarrow>
                   Some (m\<lparr>m_position := updateBufferAttribute (m_position m) posArray,
                           m_normal := updateBufferAttribute (m_normal m) normalArray,
                           m_uv := updateBufferAttribute (m_uv m) uvArray,
                           m_aTextureLayer := updateBufferAttribute (m_aTextureLayer m) layerArray,
                           m_visible := True,
                           m_maxDrawZ := maxDrawZ\<rparr>)
               | None \<Rightarrow>
                   Some (new_mesh\<lparr>m_position := Some posArray,
                                  m_normal := Some normalArray,
                                  m_uv := Some uvArray,
                                  m_aTextureLayer := Some layerArray,
                                  m_maxDrawZ := maxDrawZ\<rparr>)))"

subsection \<open>Shadow mesh builder\<close>

definition shadow_posArray :: "env \<Rightarrow> layer \<Rightarrow> rect_set \<Rightarrow> rat list" where
  "shadow_posArray e s data =
     (let drawZArr = or_nil (drawZData s) (- 1);
          elevationEnabled = (\<not> mode3d e \<and> tileLayerElevation e)
      in fill_blocks (replicate (count data * 6 * 3) 0) 18 0
           (map (\<lambda>i. pos_block data i (zOffset elevationEnabled (or0 drawZArr i)))
              [0..<count data]))"

text \<open>\<^verbatim>\<open>_buildShadowMesh(data)\<close>, as a function of \<^verbatim>\<open>_meshes\<close>.\<close>

definition buildShadowMesh ::
  "env \<Rightarrow> layer \<Rightarrow> rect_set \<Rightarrow> (mesh_key \<times> mesh) list \<Rightarrow> (mesh_key \<times> mesh) list" where
  "buildShadowMesh e s data ms =
     (let posArray = shadow_posArray e s data
      in case map_of ms ShadowKey of
           Some m \<Rightarrow>
             AList.update ShadowKey
               (m\<lparr>m_position := updateBufferAttribute (m_position m) posArray,
                  m_visible := True, m_maxDrawZ := 0\<rparr>) ms
         | None \<Rightarrow>
             AList.update ShadowKey (new_mesh\<lparr>m_position := Some posArray, m_maxDrawZ := 0\<rparr>) ms)"

subsection \<open>Water mesh builder\<close>

fun lt_ext :: "rat \<Rightarrow> ext \<Rightarrow> bool" where
  "lt_ext u PosInf = True"
| "lt_ext u (Fin m) = (u < m)"
| "lt_ext u NegInf = False"

fun gt_ext :: "rat \<Rightarrow> ext \<Rightarrow> bool" where
  "gt_ext u NegInf = True"
| "gt_ext u (Fin m) = (u > m)"
| "gt_ext u PosInf = False"

fun ext_plus :: "ext \<Rightarrow> rat \<Rightarrow> ext" where
  "ext_plus (Fin a) r = Fin (a + r)"
| "ext_plus PosInf r = PosInf"
| "ext_plus NegInf r = NegInf"

text \<open>\<^verbatim>\<open>m = Infinity; for ...: if (u < m) m = u\<close> and its twin for the maximum.\<close>

definition run_min :: "rat list \<Rightarrow> ext" where
  "run_min us = foldl (\<lambda>m u. if lt_ext u m then Fin u else m) PosInf us"

definition run_max :: "rat list \<Rightarrow> ext" where
  "run_max us = foldl (\<lambda>m u. if gt_ext u m then Fin u else m) NegInf us"

text \<open>
  The flipped UVs of the six vertices of water rect \<open>i\<close>; \<open>texW\<close> and \<open>texH\<close> are
  \<^verbatim>\<open>image.width || 1\<close> and \<^verbatim>\<open>image.height || 1\<close>. These statements are the same in
  \<^verbatim>\<open>_buildWaterTypeMesh\<close> and in \<^verbatim>\<open>_updateAnimUVs\<close>.
\<close>

definition water_us :: "rect_set \<Rightarrow> nat \<Rightarrow> rat \<Rightarrow> rat \<Rightarrow> rat list" where
  "water_us data i ax texW = map (\<lambda>j. (uvs data ! (i * 12 + j * 2) + ax) / texW) [0..<6]"

definition water_vs :: "rect_set \<Rightarrow> nat \<Rightarrow> rat \<Rightarrow> rat \<Rightarrow> rat list" where
  "water_vs data i ay texH =
     map (\<lambda>j. 1 - (uvs data ! (i * 12 + j * 2 + 1) + ay) / texH) [0..<6]"

definition water_uv_block :: "rect_set \<Rightarrow> nat \<Rightarrow> rat \<Rightarrow> rat \<Rightarrow> rat \<Rightarrow> rat \<Rightarrow> rat list" where
  "water_uv_block data i ax ay texW texH =
     concat (map (\<lambda>j. [water_us data i ax texW ! j, water_vs data i ay texH ! j]) [0..<6])"

text \<open>The four bounds after the half-texel inset, as \<open>[uMin, vMin, uMax, vMax]\<close>.\<close>

definition water_bounds :: "rect_set \<Rightarrow> nat \<Rightarrow> rat \<Rightarrow> rat \<Rightarrow> rat \<Rightarrow> rat \<Rightarrow> ext list" where
  "water_bounds data i ax ay texW texH =
     (let us = water_us data i ax texW;
          vs = water_vs data i ay texH;
          halfTexelU = (1 / 2) / texW;
          halfTexelV = (1 / 2) / texH;
          uMin = ext_plus (run_min us) halfTexelU;
          uMax = ext_plus (run_max us) (- halfTexelU);
          vMin = ext_plus (run_min vs) halfTexelV;
          vMax = ext_plus (run_max vs) (- halfTexelV)
      in [uMin, vMin, uMax, vMax])"

definition water_bounds_block :: "rect_set \<Rightarrow> nat \<Rightarrow> rat \<Rightarrow> rat \<Rightarrow> rat \<Rightarrow> rat \<Rightarrow> ext list" where
  "water_bounds_block data i ax ay texW texH =
     concat (map (\<lambda>j. water_bounds data i ax ay texW texH) [0..<6::nat])"

definition tex_dim :: "nat \<Rightarrow> rat" where
  "tex_dim n = (if n = 0 then 1 else of_nat n)"

text \<open>
  \<^verbatim>\<open>_buildWaterTypeMesh\<close>: the mesh of one group, written to \<^verbatim>\<open>_meshes[meshKey]\<close>.
  Its stores \<^verbatim>\<open>texture.minFilter = THREE.NearestFilter\<close> set no \<^verbatim>\<open>needsUpdate\<close> and
  find the filter already set by \<^verbatim>\<open>_flush\<close>, its only caller through
  \<^verbatim>\<open>_buildWaterMesh\<close>; the mesh keeps the texture it is given.
\<close>

definition buildWaterTypeMesh ::
  "env \<Rightarrow> layer \<Rightarrow> int \<Rightarrow> mesh_key \<Rightarrow> nat list \<Rightarrow> rect_set \<Rightarrow> rat list \<Rightarrow> texture \<Rightarrow>
   rat \<Rightarrow> rat \<Rightarrow> rat \<Rightarrow> rat \<Rightarrow> bool \<Rightarrow> int list \<Rightarrow>
   (mesh_key \<times> mesh) list \<Rightarrow> (mesh_key \<times> mesh) list" where
  "buildWaterTypeMesh e s sn meshKey indices data animOffsets tex texW texH tax tay isWF a1Kinds ms =
     (let n = length indices;
          vertCount = n * 6;
          drawZArr = or_nil (drawZData s) sn;
          ax = (\<lambda>i. or0 animOffsets (i * 2) * tax);
          ay = (\<lambda>i. or0 animOffsets (i * 2 + 1) * tay);
          posArray = fill_blocks (replicate (vertCount * 3) 0) 18 0
                       (map (\<lambda>i. pos_block data i (zOffset (tileLayerElevation e) (or0 drawZArr i)))
                          indices);
          normalArray = fill_blocks (replicate (vertCount * 3) 0) 18 0
                          (map (\<lambda>i. normal_block) indices);
          uvArray = fill_blocks (replicate (vertCount * 2) 0) 12 0
                      (map (\<lambda>i. water_uv_block data i (ax i) (ay i) texW texH) indices);
          uvBoundsArray = fill_blocks (replicate (vertCount * 4) (Fin 0)) 24 0
                            (map (\<lambda>i. water_bounds_block data i (ax i) (ay i) texW texH) indices);
          m0 = (case map_of ms meshKey of
                  Some m \<Rightarrow>
                    m\<lparr>m_position := updateBufferAttribute (m_position m) posArray,
                      m_normal := updateBufferAttribute (m_normal m) normalArray,
                      m_uv := updateBufferAttribute (m_uv m) uvArray,
                      m_aUvBounds := updateBufferAttribute (m_aUvBounds m) uvBoundsArray,
                      m_visible := True\<rparr>
                | None \<Rightarrow>
                    new_mesh\<lparr>m_position := Some posArray,
                             m_normal := Some normalArray,
                             m_uv := Some uvArray,
                             m_aUvBounds := Some uvBoundsArray\<rparr>)
      in AList.update meshKey
           (m0\<lparr>m_map := Some tex, m_isWaterMesh := True, m_isWaterfall := isWF,
               m_a1Kinds := a1Kinds\<rparr>) ms)"

text \<open>
  A group of \<^verbatim>\<open>kindGroups\<close>; its key \<^verbatim>\<open>('wf' or 'w') + '_' + kind\<close> is the pair of
  the waterfall flag and the kind.
\<close>

record kind_group =
  g_indices :: "nat list"
  g_isWaterfall :: bool
  g_kinds :: "int list"

text \<open>One round \<open>ci\<close> of the grouping loop of \<^verbatim>\<open>_buildWaterMesh\<close>.\<close>

definition group_rect ::
  "water_shader \<Rightarrow> rat list \<Rightarrow> int list \<Rightarrow> ((bool \<times> int) \<times> kind_group) list \<Rightarrow> nat \<Rightarrow>
   ((bool \<times> int) \<times> kind_group) list" where
  "group_rect ws animOffsets kindArr kindGroups ci =
     (let cAnimX = or0 animOffsets (ci * 2);
          cAnimY = or0 animOffsets (ci * 2 + 1)
      in if \<not> isWaterRect ws cAnimX cAnimY then kindGroups
         else
           (let kind = kind_at kindArr ci
            in if kind \<ge> 0 \<and> \<not> isKindEnabled ws kind then kindGroups
               else
                 (let isWF = isWaterfallRect ws cAnimX cAnimY;
                      groupKey = (isWF, kind);
                      g0 = (case map_of kindGroups groupKey of
                              None \<Rightarrow> \<lparr>g_indices = [], g_isWaterfall = isWF,
                                        g_kinds = (if kind \<ge> 0 then [kind] else [])\<rparr>
                            | Some g \<Rightarrow> g);
                      g1 = g0\<lparr>g_indices := g_indices g0 @ [ci]\<rparr>;
                      g2 = (if kind \<ge> 0 \<and> kind \<notin> set (g_kinds g1)
                            then g1\<lparr>g_kinds := g_kinds g1 @ [kind]\<rparr> else g1)
                  in AList.update groupKey g2 kindGroups)))"

definition water_groups ::
  "water_shader \<Rightarrow> rat list \<Rightarrow> int list \<Rightarrow> nat \<Rightarrow> ((bool \<times> int) \<times> kind_group) list" where
  "water_groups ws animOffsets kindArr n = foldl (group_rect ws animOffsets kindArr) [] [0..<n]"

text \<open>
  \<^verbatim>\<open>_buildWaterMesh\<close>: group, then build one mesh for each non-empty group in the
  order the groups were created.
\<close>

definition buildWaterMesh ::
  "env \<Rightarrow> water_shader \<Rightarrow> layer \<Rightarrow> int \<Rightarrow> rect_set \<Rightarrow> rat list \<Rightarrow> texture \<Rightarrow>
   rat \<Rightarrow> rat \<Rightarrow> rat \<Rightarrow> rat \<Rightarrow> (mesh_key \<times> mesh) list \<Rightarrow> (mesh_key \<times> mesh) list" where
  "buildWaterMesh e ws s sn data animOffsets tex texW texH tax tay ms =
     foldl (\<lambda>ms' (gk, g).
              if length (g_indices g) > 0
              then buildWaterTypeMesh e s sn (WaterKey sn (fst gk) (snd gk)) (g_indices g) data
                     animOffsets tex texW texH tax tay (g_isWaterfall g) (g_kinds g) ms'
              else ms')
       ms (water_groups ws animOffsets (or_nil (kindData s) sn) (count data))"

subsection \<open>Animation fast path\<close>

text \<open>
  The rects the fast path writes into one water mesh, in loop order: the three
  \<^verbatim>\<open>continue\<close> tests of the loop over \<open>i\<close> in \<^verbatim>\<open>_updateAnimUVs\<close>.
\<close>

definition water_selected ::
  "water_shader \<Rightarrow> rat list \<Rightarrow> int list \<Rightarrow> int list \<Rightarrow> bool \<Rightarrow> nat \<Rightarrow> nat list" where
  "water_selected ws animOffsets kindArr meshKinds meshIsWF n =
     filter (\<lambda>i.
        (let cAx = or0 animOffsets (i * 2);
             cAy = or0 animOffsets (i * 2 + 1)
         in isWaterRect ws cAx cAy \<and>
            isWaterfallRect ws cAx cAy = meshIsWF \<and>
            \<not> (length meshKinds > 0 \<and> kind_at kindArr i \<notin> set meshKinds)))
       [0..<n]"

text \<open>
  The loop over \<^verbatim>\<open>_meshes\<close> for set \<open>sn\<close>. \<open>texW\<close> and \<open>texH\<close> are declared outside
  this loop in the source, so a mesh without a texture image inherits them from the
  mesh before it.
\<close>

fun update_water_meshes ::
  "water_shader \<Rightarrow> rect_set \<Rightarrow> rat list \<Rightarrow> int list \<Rightarrow> rat \<Rightarrow> rat \<Rightarrow> int \<Rightarrow> rat \<Rightarrow> rat \<Rightarrow>
   (mesh_key \<times> mesh) list \<Rightarrow> (mesh_key \<times> mesh) list" where
  "update_water_meshes ws data animOffsets kindArr tax tay sn texW texH [] = []"
| "update_water_meshes ws data animOffsets kindArr tax tay sn texW texH ((mkey, wMesh) # rest) =
     (case mkey of
        ShadowKey \<Rightarrow>
          (mkey, wMesh) # update_water_meshes ws data animOffsets kindArr tax tay sn texW texH rest
      | WaterKey ksn kwf kk \<Rightarrow>
          if ksn \<noteq> sn then
            (mkey, wMesh) # update_water_meshes ws data animOffsets kindArr tax tay sn texW texH rest
          else
            (case m_uv wMesh of
               None \<Rightarrow>
                 (mkey, wMesh) #
                   update_water_meshes ws data animOffsets kindArr tax tay sn texW texH rest
             | Some wUvArray \<Rightarrow>
                 (let img = (case m_map wMesh of None \<Rightarrow> None | Some wTex \<Rightarrow> tex_image wTex);
                      texW' = (case img of None \<Rightarrow> texW | Some im \<Rightarrow> tex_dim (img_width im));
                      texH' = (case img of None \<Rightarrow> texH | Some im \<Rightarrow> tex_dim (img_height im));
                      sel = water_selected ws animOffsets kindArr (m_a1Kinds wMesh)
                              (m_isWaterfall wMesh) (count data);
                      ax = (\<lambda>i. or0 animOffsets (i * 2) * tax);
                      ay = (\<lambda>i. or0 animOffsets (i * 2 + 1) * tay);
                      uv' = fill_blocks wUvArray 12 0
                              (map (\<lambda>i. water_uv_block data i (ax i) (ay i) texW' texH') sel);
                      bounds' = (case m_aUvBounds wMesh of
                                   None \<Rightarrow> None
                                 | Some wBoundsArray \<Rightarrow>
                                     Some (fill_blocks wBoundsArray 24 0
                                       (map (\<lambda>i. water_bounds_block data i (ax i) (ay i) texW' texH')
                                          sel)))
                  in (mkey, wMesh\<lparr>m_uv := Some uv', m_aUvBounds := bounds'\<rparr>) #
                       update_water_meshes ws data animOffsets kindArr tax tay sn texW' texH' rest)))"

text \<open>
  The water classification shared by \<^verbatim>\<open>_flush\<close> and the \<^verbatim>\<open>hasWater\<close> test of the
  fast path: \<^verbatim>\<open>isWaterRect(cAnimX, cAnimY) && (ck < 0 || isKindEnabled(ck))\<close>.
\<close>

definition water_rect :: "water_shader \<Rightarrow> rat list \<Rightarrow> int list \<Rightarrow> nat \<Rightarrow> bool" where
  "water_rect ws animOffsets kindArr ci =
     (let cAnimX = or0 animOffsets (ci * 2);
          cAnimY = or0 animOffsets (ci * 2 + 1);
          ck = kind_at kindArr ci
      in isWaterRect ws cAnimX cAnimY \<and> (ck < 0 \<or> isKindEnabled ws ck))"

text \<open>One round of the loop over \<^verbatim>\<open>_rectData\<close> in \<^verbatim>\<open>_updateAnimUVs\<close>.\<close>

definition update_water_set ::
  "env \<Rightarrow> layer \<Rightarrow> rat \<Rightarrow> rat \<Rightarrow> (mesh_key \<times> mesh) list \<Rightarrow> int \<times> rect_set \<Rightarrow>
   (mesh_key \<times> mesh) list" where
  "update_water_set e s tax tay ms p =
     (let sn = fst p; data = snd p
      in if sn \<noteq> 0 then ms
         else
           (case ThreeWaterShader e of
              None \<Rightarrow> ms
            | Some ws \<Rightarrow>
                if count data = 0 then ms
                else
                  (let animOffsets = or_nil (animData s) sn;
                       kindArr = or_nil (kindData s) sn;
                       hasWater = list_ex (water_rect ws animOffsets kindArr) [0..<count data]
                   in if \<not> hasWater then ms
                      else update_water_meshes ws data animOffsets kindArr tax tay sn 1 1 ms)))"

definition updateAnimUVs :: "env \<Rightarrow> layer \<Rightarrow> rat \<Rightarrow> rat \<Rightarrow> layer" where
  "updateAnimUVs e s tax tay =
     (let um = (case unifiedMesh s of
                  None \<Rightarrow> None
                | Some m \<Rightarrow>
                    if m_visible m then
                      (case unifiedRects s of
                         None \<Rightarrow> Some m
                       | Some rects \<Rightarrow>
                           (case m_uv m of
                              None \<Rightarrow> Some m
                            | Some uvArray \<Rightarrow>
                                Some (m\<lparr>m_uv := Some (fill_blocks uvArray 12 0
                                          (map (unified_uv_of s tax tay) rects))\<rparr>)))
                    else Some m)
      in s\<lparr>unifiedMesh := um,
            meshes := foldl (update_water_set e s tax tay) (meshes s) (own_entries (rectData s))\<rparr>)"

subsection \<open>Classifier, sorter and flush\<close>

text \<open>
  The water test of the classification loop of \<^verbatim>\<open>_flush\<close>:
  \<^verbatim>\<open>sn === 0 && typeof ThreeWaterShader !== 'undefined'\<close> guards the classifier.
\<close>

definition is_water :: "env \<Rightarrow> int \<Rightarrow> rat list \<Rightarrow> int list \<Rightarrow> nat \<Rightarrow> bool" where
  "is_water e sn animOffsets kindArr ci =
     (sn = 0 \<and>
      (case ThreeWaterShader e of
         None \<Rightarrow> False
       | Some ws \<Rightarrow> water_rect ws animOffsets kindArr ci))"

record classified =
  cl_allRects :: "unified_rect list"
  cl_hasWaterBySet :: "int list"
  cl_meshes :: "(mesh_key \<times> mesh) list"

text \<open>One round of the loop over \<^verbatim>\<open>_rectData\<close> in \<^verbatim>\<open>_flush\<close>.\<close>

definition classify_set :: "env \<Rightarrow> layer \<Rightarrow> classified \<Rightarrow> int \<times> rect_set \<Rightarrow> classified" where
  "classify_set e s st p =
     (let sn = fst p; data = snd p
      in if count data = 0 then st
         else if sn = - 1 then st\<lparr>cl_meshes := buildShadowMesh e s data (cl_meshes st)\<rparr>
         else
           (let animOffsets = or_nil (animData s) sn;
                kindArr = or_nil (kindData s) sn;
                drawZArr = or_nil (drawZData s) sn;
                unified = filter (\<lambda>ci. \<not> is_water e sn animOffsets kindArr ci) [0..<count data];
                hasWater = list_ex (is_water e sn animOffsets kindArr) [0..<count data]
            in st\<lparr>cl_allRects := cl_allRects st @
                     map (\<lambda>ci. \<lparr>setNumber = sn, index = ci, drawZ = or0 drawZArr ci\<rparr>) unified,
                   cl_hasWaterBySet :=
                     (if hasWater \<and> sn \<notin> set (cl_hasWaterBySet st)
                      then cl_hasWaterBySet st @ [sn] else cl_hasWaterBySet st)\<rparr>))"

definition classify :: "env \<Rightarrow> layer \<Rightarrow> classified" where
  "classify e s =
     foldl (classify_set e s)
       \<lparr>cl_allRects = [], cl_hasWaterBySet = [], cl_meshes = meshes s\<rparr>
       (own_entries (rectData s))"

text \<open>
  \<^verbatim>\<open>allRects.sort(function(a, b) { return a.drawZ - b.drawZ; })\<close>: the sort of the
  JavaScript engine, which is stable (ECMAScript 2019), as \<open>sort_key\<close> is.
\<close>

definition sort_by_drawZ :: "unified_rect list \<Rightarrow> unified_rect list" where
  "sort_by_drawZ allRects = sort_key drawZ allRects"

text \<open>
  \<^verbatim>\<open>if (wTex.minFilter !== THREE.NearestFilter) { ...; wTex.needsUpdate = true; }\<close> in
  \<^verbatim>\<open>_flush\<close>. The setter \<^verbatim>\<open>needsUpdate\<close> of a texture increments its version.
\<close>

definition nearest_filter :: "texture \<Rightarrow> texture" where
  "nearest_filter tex =
     (if tex_nearest tex then tex
      else tex\<lparr>tex_nearest := True, tex_version := Suc (tex_version tex)\<rparr>)"

text \<open>
  The bitmap after a store into the texture that \<^verbatim>\<open>_extractThreeTexture\<close> returns for it.
\<close>

fun store_texture :: "texture \<Rightarrow> bitmap option \<Rightarrow> bitmap option" where
  "store_texture tex None = None"
| "store_texture tex (Some (BaseTexture t)) = Some (BaseTexture tex)"
| "store_texture tex (Some (ThreeTexture t)) = Some (ThreeTexture tex)"
| "store_texture tex (Some (IsTexture t)) = Some (IsTexture tex)"
| "store_texture tex (Some OtherBitmap) = Some OtherBitmap"

text \<open>
  One round of the loop over \<^verbatim>\<open>hasWaterBySet\<close> in \<^verbatim>\<open>_flush\<close>, on the pair of
  \<^verbatim>\<open>_bitmaps\<close> and \<^verbatim>\<open>_meshes\<close>. The texture is an object reached through the bitmap, so
  the store into it is a store into \<^verbatim>\<open>_bitmaps[wSn]\<close>; a mesh keeps the texture as it is
  when the mesh is built. Two slots of \<^verbatim>\<open>_bitmaps\<close> that hold the same texture object are
  not modelled as shared.
\<close>

definition build_water_set ::
  "env \<Rightarrow> layer \<Rightarrow> rat \<Rightarrow> rat \<Rightarrow> bitmap option list \<times> (mesh_key \<times> mesh) list \<Rightarrow> int \<Rightarrow>
   bitmap option list \<times> (mesh_key \<times> mesh) list" where
  "build_water_set e s tax tay st wSn =
     (let wData = rect_data_of s wSn;
          wAnimOffsets = or_nil (animData s) wSn;
          wBitmap = (if 0 \<le> wSn then bitmap_at (fst st) (nat wSn) else None);
          wTex = extractThreeTexture wBitmap
      in case wTex of
           None \<Rightarrow> st
         | Some tex0 \<Rightarrow>
             (case tex_image tex0 of
                None \<Rightarrow> st
              | Some img \<Rightarrow>
                  (case ThreeWaterShader e of
                     None \<Rightarrow> st
                   | Some ws \<Rightarrow>
                       (let tex = nearest_filter tex0
                        in ((fst st)[nat wSn := store_texture tex wBitmap],
                            buildWaterMesh e ws s wSn wData wAnimOffsets tex
                              (tex_dim (img_width img)) (tex_dim (img_height img)) tax tay
                              (snd st))))))"

text \<open>
  The start of a full rebuild: the dirty flag is cleared, the phase recorded, and every
  existing mesh hidden.
\<close>

definition start_rebuild :: "layer \<Rightarrow> layer" where
  "start_rebuild s =
     s\<lparr>needsRebuild := False, lastTileAnimX := tileAnimX s, lastTileAnimY := tileAnimY s,
       meshes := map (\<lambda>(k, m). (k, m\<lparr>m_visible := False\<rparr>)) (meshes s),
       unifiedMesh := (case unifiedMesh s of None \<Rightarrow> None
                       | Some m \<Rightarrow> Some (m\<lparr>m_visible := False\<rparr>))\<rparr>"

text \<open>The full rebuild: \<^verbatim>\<open>_flush\<close> from \<^verbatim>\<open>this._needsRebuild = false\<close> to its end.\<close>

definition rebuild :: "env \<Rightarrow> layer \<Rightarrow> layer" where
  "rebuild e s =
     (let tax = tileAnimX s; tay = tileAnimY s;
          s1 = start_rebuild s;
          cl = classify e s1;
          allRects = sort_by_drawZ (cl_allRects cl);
          um = buildUnifiedMesh e s1 allRects tax tay;
          w = foldl (build_water_set e s1 tax tay) (bitmaps s1, cl_meshes cl)
                (map fst (own_entries (map (\<lambda>k. (k, ())) (cl_hasWaterBySet cl))))
      in s1\<lparr>unifiedRects := Some allRects, unifiedMesh := um, bitmaps := fst w, meshes := snd w\<rparr>)"

text \<open>
  \<^verbatim>\<open>_flush()\<close>. The \<^verbatim>\<open>uTime\<close> refresh of the water materials and the shader
  uniform refresh touch materials only.
\<close>

definition flush :: "env \<Rightarrow> layer \<Rightarrow> layer" where
  "flush e s0 =
     (let tax = tileAnimX s0; tay = tileAnimY s0;
          animChanged = (tax \<noteq> lastTileAnimX s0 \<or> tay \<noteq> lastTileAnimY s0);
          s = snd (ensureArrayTexture s0)
      in if \<not> needsRebuild s \<and> animChanged then
           updateAnimUVs e (s\<lparr>lastTileAnimX := tax, lastTileAnimY := tay\<rparr>) tax tay
         else if \<not> needsRebuild s then s
         else rebuild e s)"


subsection \<open>Invariants and abstractions\<close>

text \<open>
  The invariant of a rect set: the count is within the capacity and both buffers have
  room for \<open>capacity\<close> quads of twelve numbers.
\<close>

definition rs_inv :: "rect_set \<Rightarrow> bool" where
  "rs_inv d =
     (count d \<le> capacity d \<and> 0 < capacity d \<and>
      length (positions d) = capacity d * 12 \<and> length (uvs d) = capacity d * 12)"

text \<open>
  The invariant of the accumulator: every rect set satisfies \<open>rs_inv\<close>, the four
  dictionaries have the same keys in the same order, without duplicates, and the side
  arrays are in lockstep with the count.
\<close>

definition layer_inv :: "layer \<Rightarrow> bool" where
  "layer_inv s =
     (distinct (map fst (rectData s)) \<and>
      map fst (animData s) = map fst (rectData s) \<and>
      map fst (kindData s) = map fst (rectData s) \<and>
      map fst (drawZData s) = map fst (rectData s) \<and>
      list_all (\<lambda>p. rs_inv (snd p) \<and>
                  length (or_nil (animData s) (fst p)) = 2 * count (snd p) \<and>
                  length (or_nil (kindData s) (fst p)) = count (snd p) \<and>
                  length (or_nil (drawZData s) (fst p)) = count (snd p))
        (rectData s))"

text \<open>The stored entries of set \<open>sn\<close>: the first \<open>12 * count\<close> numbers of a buffer.\<close>

definition stored_positions :: "layer \<Rightarrow> int \<Rightarrow> rat list" where
  "stored_positions s sn = take (12 * count (rect_data_of s sn)) (positions (rect_data_of s sn))"

definition stored_uvs :: "layer \<Rightarrow> int \<Rightarrow> rat list" where
  "stored_uvs s sn = take (12 * count (rect_data_of s sn)) (uvs (rect_data_of s sn))"

text \<open>
  The texture that the guards of the scan loop let through for layer \<open>i\<close>: a bound
  bitmap with a texture whose image is decoded (non-zero width and height).
\<close>

definition bound_ready :: "bitmap option list \<Rightarrow> nat \<Rightarrow> texture option" where
  "bound_ready bms i =
     (case extractThreeTexture (bitmap_at bms i) of
        None \<Rightarrow> None
      | Some tex \<Rightarrow>
          (case tex_image tex of
             None \<Rightarrow> None
           | Some img \<Rightarrow> if 0 < img_width img \<and> 0 < img_height img then Some tex else None))"

text \<open>
  Layer \<open>i\<close> is current: its bound, ready image, if any, has the recorded version and
  the loaded flag of the layer is set.
\<close>

definition layer_current :: "bitmap option list \<Rightarrow> array_texture \<Rightarrow> nat \<Rightarrow> bool" where
  "layer_current bms t i =
     (case bound_ready bms i of
        None \<Rightarrow> True
      | Some tex \<Rightarrow>
          i < length (layerLoaded t) \<and> layerLoaded t ! i \<and>
          i < length (layerImageVersions t) \<and> layerImageVersions t ! i = tex_version tex)"

definition all_current :: "bitmap option list \<Rightarrow> array_texture \<Rightarrow> bool" where
  "all_current bms t = list_all (layer_current bms t) [0..<TILESET_LAYER_COUNT]"

text \<open>The flag and version arrays have one entry for each layer.\<close>

definition at_inv :: "array_texture \<Rightarrow> bool" where
  "at_inv t =
     (length (layerLoaded t) = TILESET_LAYER_COUNT \<and>
      length (layerImageVersions t) = TILESET_LAYER_COUNT \<and>
      length (at_data t) = TILESET_LAYER_COUNT)"

text \<open>
  The built geometry of a layer: the accumulated rect buffers with their side arrays,
  every mesh of \<^verbatim>\<open>_meshes\<close> (attributes, visibility, \<^verbatim>\<open>userData\<close>), the unified
  mesh and the recorded unified rects.
\<close>

definition built_geometry ::
  "layer \<Rightarrow>
   ((int \<times> rect_set) list \<times> (int \<times> rat list) list \<times> (int \<times> int list) list \<times>
    (int \<times> int list) list) \<times>
   (mesh_key \<times> mesh) list \<times> mesh option \<times> unified_rect list option" where
  "built_geometry s =
     ((rectData s, animData s, kindData s, drawZData s), meshes s, unifiedMesh s, unifiedRects s)"

text \<open>
  The rects that one round of the classification loop of \<^verbatim>\<open>_flush\<close> appends to
  \<^verbatim>\<open>allRects\<close> (lemma \<open>classify_allRects\<close>).
\<close>

definition set_rects :: "env \<Rightarrow> layer \<Rightarrow> int \<times> rect_set \<Rightarrow> unified_rect list" where
  "set_rects e s p =
     (if count (snd p) = 0 \<or> fst p = - 1 then []
      else map (\<lambda>ci. \<lparr>setNumber = fst p, index = ci,
                        drawZ = or0 (or_nil (drawZData s) (fst p)) ci\<rparr>)
             (filter (\<lambda>ci. \<not> is_water e (fst p) (or_nil (animData s) (fst p))
                                (or_nil (kindData s) (fst p)) ci)
                [0..<count (snd p)]))"

text \<open>The flat list of a full rebuild, before it is sorted.\<close>

definition flat_rects :: "env \<Rightarrow> layer \<Rightarrow> unified_rect list" where
  "flat_rects e s = cl_allRects (classify e s)"

text \<open>
  The texture that the loop over \<^verbatim>\<open>hasWaterBySet\<close> in \<^verbatim>\<open>_flush\<close> lets through for set
  \<open>wSn\<close>: a bound bitmap with a texture that has an image.
\<close>

definition water_texture :: "layer \<Rightarrow> int \<Rightarrow> texture option" where
  "water_texture s wSn =
     (case extractThreeTexture (if 0 \<le> wSn then bitmap_at (bitmaps s) (nat wSn) else None) of
        None \<Rightarrow> None
      | Some tex \<Rightarrow> (case tex_image tex of None \<Rightarrow> None | Some img \<Rightarrow> Some tex))"

text \<open>
  Rect \<open>ci\<close> is put in the group of key \<open>(fl, kd)\<close> by the grouping loop of
  \<^verbatim>\<open>_buildWaterMesh\<close> (lemma \<open>water_groups_indices\<close>).
\<close>

definition group_member ::
  "water_shader \<Rightarrow> rat list \<Rightarrow> int list \<Rightarrow> bool \<Rightarrow> int \<Rightarrow> nat \<Rightarrow> bool" where
  "group_member ws animOffsets kindArr fl kd ci =
     (water_rect ws animOffsets kindArr ci \<and>
      isWaterfallRect ws (or0 animOffsets (ci * 2)) (or0 animOffsets (ci * 2 + 1)) = fl \<and>
      kind_at kindArr ci = kd)"

text \<open>
  What a mesh puts on the screen: its position attribute, or nothing when the mesh does
  not exist or is hidden.
\<close>

definition shown :: "mesh option \<Rightarrow> rat list option" where
  "shown mo = (case mo of None \<Rightarrow> None | Some m \<Rightarrow> if m_visible m then m_position m else None)"

text \<open>
  What a mesh of the given quads puts on the screen: the quads one after the other, and
  nothing when there is no quad.
\<close>

definition quads :: "rat list list \<Rightarrow> rat list option" where
  "quads qs = (if qs = [] then None else Some (concat qs))"

subsection \<open>Setters assigned from outside\<close>

text \<open>
  Modelled from the spec: the z-cursor setter ("a z-cursor setter tagging subsequent
  addRect calls with an integer elevation layer") and \<^verbatim>\<open>setAnimationOffset(x, y)\<close>
  ("global per-frame animation-phase scalars"). Their code is in the caller of this
  file, which assigns \<^verbatim>\<open>_currentDrawZ\<close>, \<^verbatim>\<open>_tileAnimX\<close> and \<^verbatim>\<open>_tileAnimY\<close>; neither
  touches \<^verbatim>\<open>_needsRebuild\<close>.
\<close>

definition setDrawZ :: "layer \<Rightarrow> int \<Rightarrow> layer" where
  "setDrawZ s z = s\<lparr>currentDrawZ := z\<rparr>"

definition setAnimationOffset :: "layer \<Rightarrow> rat \<Rightarrow> rat \<Rightarrow> layer" where
  "setAnimationOffset s x y = s\<lparr>tileAnimX := x, tileAnimY := y\<rparr>"

subsection \<open>Sequences of addRect calls\<close>

text \<open>
  One call of \<^verbatim>\<open>addRect\<close> with the value of the z cursor at the time of the call.
\<close>

record rect_call =
  c_setNumber :: int
  c_u :: rat
  c_v :: rat
  c_x :: rat
  c_y :: rat
  c_w :: rat
  c_h :: rat
  c_animX :: "rat option"
  c_animY :: "rat option"
  c_kind :: "int option"
  c_drawZ :: int

definition do_call :: "layer \<Rightarrow> rect_call \<Rightarrow> layer" where
  "do_call s c =
     addRect (setDrawZ s (c_drawZ c)) (c_setNumber c) (c_u c) (c_v c) (c_x c) (c_y c) (c_w c) (c_h c)
       (c_animX c) (c_animY c) (c_kind c)"

definition add_all :: "layer \<Rightarrow> rect_call list \<Rightarrow> layer" where
  "add_all s cs = foldl do_call s cs"

text \<open>The calls made for set \<open>sn\<close>, in call order.\<close>

definition calls_to :: "int \<Rightarrow> rect_call list \<Rightarrow> rect_call list" where
  "calls_to sn cs = filter (\<lambda>c. c_setNumber c = sn) cs"

text \<open>The values a call stores in the side arrays.\<close>

definition call_anim :: "rect_call \<Rightarrow> rat list" where
  "call_anim c =
     [case c_animX c of None \<Rightarrow> 0 | Some a \<Rightarrow> a, case c_animY c of None \<Rightarrow> 0 | Some a \<Rightarrow> a]"

definition call_kind :: "rect_call \<Rightarrow> int" where
  "call_kind c = (case c_kind c of None \<Rightarrow> - 1 | Some k \<Rightarrow> k)"

text \<open>The water test of \<open>flush\<close> on the values of one call.\<close>

definition water_call :: "env \<Rightarrow> rect_call \<Rightarrow> bool" where
  "water_call e c = is_water e (c_setNumber c) (call_anim c) [call_kind c] 0"

text \<open>
  The calls that the grouping loop of \<^verbatim>\<open>_buildWaterMesh\<close> puts in the group of key
  \<open>(fl, kd)\<close> of set 0, in call order.
\<close>

definition water_calls :: "env \<Rightarrow> bool \<Rightarrow> int \<Rightarrow> rect_call list \<Rightarrow> rect_call list" where
  "water_calls e fl kd cs =
     (case ThreeWaterShader e of
        None \<Rightarrow> []
      | Some ws \<Rightarrow> filter (\<lambda>c. group_member ws (call_anim c) [call_kind c] fl kd 0) (calls_to 0 cs))"

text \<open>The eighteen numbers of one quad of a position attribute: six vertices with \<open>z\<close>.\<close>

definition call_vertices :: "rect_call \<Rightarrow> rat \<Rightarrow> rat list" where
  "call_vertices c z =
     [c_x c, c_y c, z, c_x c + c_w c, c_y c, z, c_x c, c_y c + c_h c, z,
      c_x c + c_w c, c_y c, z, c_x c + c_w c, c_y c + c_h c, z, c_x c, c_y c + c_h c, z]"

subsection \<open>Example states\<close>

text \<open>The layer after \<open>n\<close> calls \<^verbatim>\<open>addRect(0, 0, 0, 0, 0, 32, 32)\<close> on a new layer.\<close>

definition same_rects :: "nat \<Rightarrow> layer" where
  "same_rects n = ((\<lambda>s. addRect s 0 0 0 0 0 32 32 None None None) ^^ n) new_layer"

text \<open>
  A decoded 768 x 768 tileset image at version 1 with the nearest filter, bound as layer 0
  and scanned once.
\<close>

definition example_tex :: texture where
  "example_tex =
     \<lparr>tex_image = Some \<lparr>img_width = 768, img_height = 768, img_pixels = 1\<rparr>, tex_version = 1,
      tex_nearest = True\<rparr>"

definition scanned_layer :: layer where
  "scanned_layer = snd (ensureArrayTexture (setBitmaps new_layer [Some (IsTexture example_tex)]))"

text \<open>An environment without the water shader module, in 2D mode, without elevation.\<close>

definition plain_env :: env where
  "plain_env = \<lparr>ThreeWaterShader = None, mode3d = False, tileLayerElevation = False\<rparr>"

text \<open>
  Three rects added to set \<open>sn\<close> with the z cursor at 2, then 1, then 1, on a new layer.
\<close>

definition three_rects :: "int \<Rightarrow> layer" where
  "three_rects sn =
     addRect
       (addRect
          (setDrawZ (addRect (setDrawZ new_layer 2) sn 0 0 0 0 32 32 None None None) 1)
          sn 0 0 32 0 32 32 None None None)
       sn 0 0 64 0 32 32 None None None"

text \<open>A new layer after \<^verbatim>\<open>addRect(0, 0, 0, 32, 32, 32, 32)\<close>.\<close>

definition one_rect :: layer where
  "one_rect = addRect new_layer 0 0 0 32 32 32 32 None None None"

text \<open>
  An example classifier: a rect is water when one of its anim offsets is positive, a
  waterfall when its \<open>animY\<close> is positive, and every kind is enabled.
\<close>

definition example_shader :: water_shader where
  "example_shader =
     \<lparr>isWaterRect = (\<lambda>ax ay. ax > 0 \<or> ay > 0), isWaterfallRect = (\<lambda>ax ay. ay > 0),
      isKindEnabled = (\<lambda>k. True)\<rparr>"

definition water_env :: env where
  "water_env = \<lparr>ThreeWaterShader = Some example_shader, mode3d = False, tileLayerElevation = False\<rparr>"

text \<open>
  A layer with \<open>example_tex\<close> bound as tileset 0 and two water rects in set 0: the
  first of kind 3 at source pixel (0, 0), the second without a kind at source pixel
  (96, 0); both have the anim signature (2, 0).
\<close>

definition water_pair :: layer where
  "water_pair =
     addRect
       (addRect (setBitmaps new_layer [Some (IsTexture example_tex)])
          0 0 0 0 0 48 48 (Some 2) (Some 0) (Some 3))
       0 96 0 48 0 48 48 (Some 2) (Some 0) None"

text \<open>
  A new layer with one rect in set 1 that carries the water signature (2, 0) and kind 3.
\<close>

definition set1_water :: layer where
  "set1_water = addRect new_layer 1 0 0 0 0 48 48 (Some 2) (Some 0) (Some 3)"

text \<open>\<open>water_pair\<close> with the animation phase set to \<open>(p, 0)\<close>, not yet flushed.\<close>

definition water_at :: "rat \<Rightarrow> layer" where
  "water_at p = setAnimationOffset water_pair p 0"

text \<open>
  Four calls on one layer: a shadow rect, a water rect of kind 3 in set 0, a rect with the
  same signature and kind in set 1 (drawn at z layer 1), and a plain rect in set 0.
\<close>

definition example_calls :: "rect_call list" where
  "example_calls =
     [\<lparr>c_setNumber = - 1, c_u = 0, c_v = 0, c_x = 0, c_y = 0, c_w = 48, c_h = 48,
       c_animX = None, c_animY = None, c_kind = None, c_drawZ = 0\<rparr>,
      \<lparr>c_setNumber = 0, c_u = 0, c_v = 0, c_x = 48, c_y = 0, c_w = 48, c_h = 48,
       c_animX = Some 2, c_animY = Some 0, c_kind = Some 3, c_drawZ = 0\<rparr>,
      \<lparr>c_setNumber = 1, c_u = 0, c_v = 0, c_x = 96, c_y = 0, c_w = 48, c_h = 48,
       c_animX = Some 2, c_animY = Some 0, c_kind = Some 3, c_drawZ = 1\<rparr>,
      \<lparr>c_setNumber = 0, c_u = 48, c_v = 0, c_x = 144, c_y = 0, c_w = 48, c_h = 48,
       c_animX = None, c_animY = None, c_kind = None, c_drawZ = 0\<rparr>]"

text \<open>A new layer with \<open>example_tex\<close> bound as tileset 0.\<close>

definition textured_layer :: layer where
  "textured_layer = setBitmaps new_layer [Some (IsTexture example_tex)]"

subsection \<open>Properties of typed-array stores\<close>

lemma length_write_block [simp]: "length (write_block arr off vs) = length arr"
  by (induction vs arbitrary: arr off) auto

lemma write_block_eq:
  "off + length vs \<le> length arr \<Longrightarrow>
   write_block arr off vs = take off arr @ vs @ drop (off + length vs) arr"
proof (induction vs arbitrary: arr off)
  case Nil
  then show ?case by simp
next
  case (Cons v vs)
  have lt: "off < length arr" using Cons.prems by simp
  have "write_block (arr[off := v]) (Suc off) vs =
        take (Suc off) (arr[off := v]) @ vs @ drop (Suc off + length vs) (arr[off := v])"
    using Cons.prems by (intro Cons.IH) simp
  also have "take (Suc off) (arr[off := v]) = take off arr @ [v]"
    using lt by (simp add: take_Suc_conv_app_nth)
  also have "drop (Suc off + length vs) (arr[off := v]) = drop (off + length (v # vs)) arr"
    by simp
  finally show ?case by simp
qed

lemma fill_blocks_eq:
  "\<forall>q \<in> set qs. length q = B \<Longrightarrow> (ri + length qs) * B \<le> length arr \<Longrightarrow>
   fill_blocks arr B ri qs =
     take (ri * B) arr @ concat qs @ drop ((ri + length qs) * B) arr"
proof (induction qs arbitrary: arr ri)
  case Nil
  then show ?case by simp
next
  case (Cons q qs)
  have lq: "length q = B" using Cons.prems(1) by simp
  have fits: "ri * B + length q \<le> length arr"
    using Cons.prems(2) lq by (simp add: algebra_simps)
  let ?arr' = "write_block arr (ri * B) q"
  have arr': "?arr' = take (ri * B) arr @ q @ drop (ri * B + B) arr"
    using write_block_eq [OF fits] lq by simp
  have "fill_blocks ?arr' B (Suc ri) qs =
        take (Suc ri * B) ?arr' @ concat qs @ drop ((Suc ri + length qs) * B) ?arr'"
    using Cons.prems by (intro Cons.IH) simp_all
  moreover have "take (Suc ri * B) ?arr' = take (ri * B) arr @ q"
    using fits lq by (simp add: arr')
  moreover have "drop ((Suc ri + length qs) * B) ?arr' = drop ((ri + length (q # qs)) * B) arr"
  proof -
    have len: "length (take (ri * B) arr @ q) = ri * B + B"
      using fits lq by simp
    have e1: "(Suc ri + length qs) * B = (ri * B + B) + length qs * B"
      by (simp add: algebra_simps)
    have e2: "(ri + length (q # qs)) * B = (ri * B + B) + length qs * B"
      by (simp add: algebra_simps)
    have A: "?arr' = (take (ri * B) arr @ q) @ drop (ri * B + B) arr"
      using arr' by simp
    have "drop ((ri * B + B) + length qs * B) ((take (ri * B) arr @ q) @ drop (ri * B + B) arr) =
          drop (length qs * B) (drop (ri * B + B) arr)"
      using len by (simp del: append_assoc)
    also have "\<dots> = drop ((ri * B + B) + length qs * B) arr"
      by (simp add: add.commute)
    finally show ?thesis
      unfolding e1 e2 A .
  qed
  ultimately show ?case by simp
qed

lemma fill_blocks_fresh:
  "\<forall>q \<in> set qs. length q = B \<Longrightarrow> length arr = length qs * B \<Longrightarrow>
   fill_blocks arr B 0 qs = concat qs"
  using fill_blocks_eq [of qs B 0 arr] by simp

lemma length_fill_blocks [simp]: "length (fill_blocks arr B ri qs) = length arr"
  by (induction qs arbitrary: arr ri) auto

lemma take_app3: "length a = n \<Longrightarrow> length q = m \<Longrightarrow> take (n + m) (a @ q @ r) = a @ q"
  by simp

lemma updateBufferAttribute_eq [simp]: "updateBufferAttribute attr array = Some array"
  by (simp add: updateBufferAttribute_def f32_set_def split: option.splits)

subsection \<open>Properties of the rect accumulator\<close>

lemma grow_set_fits:
  "rs_inv d \<Longrightarrow> length (positions d) \<le> capacity d * 2 * 6 * 2 \<and>
                length (uvs d) \<le> capacity d * 2 * 6 * 2"
  by (simp add: rs_inv_def)

lemma grow_props:
  assumes "rs_inv d"
  shows "count (grow d) = count d"
    and "capacity d \<le> capacity (grow d)"
    and "count d < capacity (grow d)"
    and "length (positions (grow d)) = capacity (grow d) * 12"
    and "length (uvs (grow d)) = capacity (grow d) * 12"
    and "take (length (positions d)) (positions (grow d)) = positions d"
    and "take (length (uvs d)) (uvs (grow d)) = uvs d"
  using assms by (auto simp: grow_def rs_inv_def f32_set_def Let_def)

lemma put_rect_props:
  assumes "rs_inv d"
  shows "rs_inv (put_rect d u v x y w h)"
    and "count (put_rect d u v x y w h) = Suc (count d)"
    and "capacity d \<le> capacity (put_rect d u v x y w h)"
    and "take (12 * Suc (count d)) (positions (put_rect d u v x y w h)) =
           take (12 * count d) (positions d) @ quad_coords x y w h"
    and "take (12 * Suc (count d)) (uvs (put_rect d u v x y w h)) =
           take (12 * count d) (uvs d) @ quad_coords u v w h"
proof -
  note g = grow_props [OF assms]
  have inv: "count d \<le> capacity d" "length (positions d) = capacity d * 12"
    "length (uvs d) = capacity d * 12"
    using assms by (simp_all add: rs_inv_def)
  have lq: "length (quad_coords a b c e) = 12" for a b c e :: rat
    by (simp add: quad_coords_def)
  have fitp: "count d * 12 + length (quad_coords x y w h) \<le> length (positions (grow d))"
    using g(3,4) by (simp add: lq)
  have fitu: "count d * 12 + length (quad_coords u v w h) \<le> length (uvs (grow d))"
    using g(3,5) by (simp add: lq)
  have oldp: "take (count d * 12) (positions (grow d)) = take (count d * 12) (positions d)"
  proof -
    have "take (count d * 12) (take (length (positions d)) (positions (grow d))) =
          take (count d * 12) (positions (grow d))"
      using inv by (simp add: min_def)
    then show ?thesis using g(6) by simp
  qed
  have oldu: "take (count d * 12) (uvs (grow d)) = take (count d * 12) (uvs d)"
  proof -
    have "take (count d * 12) (take (length (uvs d)) (uvs (grow d))) =
          take (count d * 12) (uvs (grow d))"
      using inv by (simp add: min_def)
    then show ?thesis using g(7) by simp
  qed
  show "rs_inv (put_rect d u v x y w h)"
    using g by (simp add: put_rect_def rs_inv_def Let_def)
  show "count (put_rect d u v x y w h) = Suc (count d)"
    by (simp add: put_rect_def Let_def)
  show "capacity d \<le> capacity (put_rect d u v x y w h)"
    using g(2) by (simp add: put_rect_def Let_def)
  have lenp: "length (take (count d * 12) (positions (grow d))) = count d * 12"
    using fitp by simp
  have lenu: "length (take (count d * 12) (uvs (grow d))) = count d * 12"
    using fitu by simp
  have n12: "12 * Suc (count d) = count d * 12 + 12"
    by simp
  have "positions (put_rect d u v x y w h) =
        take (count d * 12) (positions (grow d)) @ quad_coords x y w h @
          drop (count d * 12 + length (quad_coords x y w h)) (positions (grow d))"
    by (simp add: put_rect_def Let_def write_block_eq [OF fitp])
  then show "take (12 * Suc (count d)) (positions (put_rect d u v x y w h)) =
          take (12 * count d) (positions d) @ quad_coords x y w h"
    unfolding n12 using take_app3 [OF lenp lq] oldp by (simp add: mult.commute)
  have "uvs (put_rect d u v x y w h) =
        take (count d * 12) (uvs (grow d)) @ quad_coords u v w h @
          drop (count d * 12 + length (quad_coords u v w h)) (uvs (grow d))"
    by (simp add: put_rect_def Let_def write_block_eq [OF fitu])
  then show "take (12 * Suc (count d)) (uvs (put_rect d u v x y w h)) =
          take (12 * count d) (uvs d) @ quad_coords u v w h"
    unfolding n12 using take_app3 [OF lenu lq] oldu by (simp add: mult.commute)
qed

lemma layer_inv_alt:
  "layer_inv s =
     (distinct (map fst (rectData s)) \<and>
      map fst (animData s) = map fst (rectData s) \<and>
      map fst (kindData s) = map fst (rectData s) \<and>
      map fst (drawZData s) = map fst (rectData s) \<and>
      (\<forall>k d. map_of (rectData s) k = Some d \<longrightarrow>
         rs_inv d \<and> length (or_nil (animData s) k) = 2 * count d \<and>
         length (or_nil (kindData s) k) = count d \<and>
         length (or_nil (drawZData s) k) = count d))"
  (is "?L = ?R")
proof
  assume L: ?L
  then have d: "distinct (map fst (rectData s))" by (simp add: layer_inv_def)
  show ?R
    using L d by (auto simp: layer_inv_def list_all_iff dest!: map_of_SomeD)
next
  assume R: ?R
  then have d: "distinct (map fst (rectData s))" by simp
  show ?L
    unfolding layer_inv_def list_all_iff
    using R d by (auto simp: map_of_eq_Some_iff)
qed

lemma map_fst_update:
  "map fst (AList.update k v al) = (if k \<in> fst ` set al then map fst al else map fst al @ [k])"
  by (simp add: update_keys)

lemma map_of_None_keys: "map_of al k = None \<longleftrightarrow> k \<notin> set (map fst al)"
  by (simp add: map_of_eq_None_iff)

lemma or_nil_update: "or_nil (AList.update k v al) k' = (if k' = k then v else or_nil al k')"
  by (simp add: or_nil_def update_conv')

lemma or_nil_absent: "k \<notin> set (map fst al) \<Longrightarrow> or_nil al k = []"
  by (force simp: or_nil_def split: option.splits dest!: map_of_SomeD)

lemma rect_data_of_update:
  "rect_data_of (s\<lparr>rectData := AList.update k v (rectData s)\<rparr>) k' =
     (if k' = k then v else rect_data_of s k')"
  by (simp add: rect_data_of_def update_conv')

lemma addRect_rectData:
  "rectData (addRect s sn u v x y w h ax ay k) =
     AList.update sn
       (put_rect (case map_of (rectData s) sn of None \<Rightarrow> new_rect_set | Some d \<Rightarrow> d) u v x y w h)
       (rectData s)"
  by (simp add: addRect_def Let_def update_conv' split: option.splits)

lemma addRect_side:
  assumes "layer_inv s"
  shows "or_nil (animData (addRect s sn u v x y w h ax ay k)) sn' =
           (if sn' = sn
            then or_nil (animData s) sn @
                   [case ax of None \<Rightarrow> 0 | Some a \<Rightarrow> a, case ay of None \<Rightarrow> 0 | Some a \<Rightarrow> a]
            else or_nil (animData s) sn')"
    and "or_nil (kindData (addRect s sn u v x y w h ax ay k)) sn' =
           (if sn' = sn
            then or_nil (kindData s) sn @ [case k of None \<Rightarrow> - 1 | Some c \<Rightarrow> c]
            else or_nil (kindData s) sn')"
    and "or_nil (drawZData (addRect s sn u v x y w h ax ay k)) sn' =
           (if sn' = sn then or_nil (drawZData s) sn @ [currentDrawZ s]
            else or_nil (drawZData s) sn')"
proof -
  have keys: "map fst (animData s) = map fst (rectData s)"
    "map fst (kindData s) = map fst (rectData s)"
    "map fst (drawZData s) = map fst (rectData s)"
    using assms by (simp_all add: layer_inv_def)
  have absent: "or_nil (animData s) sn = [] \<and> or_nil (kindData s) sn = [] \<and>
                or_nil (drawZData s) sn = []" if "map_of (rectData s) sn = None"
    using that keys by (simp add: map_of_None_keys or_nil_absent)
  show "or_nil (animData (addRect s sn u v x y w h ax ay k)) sn' =
           (if sn' = sn
            then or_nil (animData s) sn @
                   [case ax of None \<Rightarrow> 0 | Some a \<Rightarrow> a, case ay of None \<Rightarrow> 0 | Some a \<Rightarrow> a]
            else or_nil (animData s) sn')"
    using absent by (cases "map_of (rectData s) sn") (simp_all add: addRect_def Let_def or_nil_update)
  show "or_nil (kindData (addRect s sn u v x y w h ax ay k)) sn' =
           (if sn' = sn
            then or_nil (kindData s) sn @ [case k of None \<Rightarrow> - 1 | Some c \<Rightarrow> c]
            else or_nil (kindData s) sn')"
    using absent by (cases "map_of (rectData s) sn") (simp_all add: addRect_def Let_def or_nil_update)
  show "or_nil (drawZData (addRect s sn u v x y w h ax ay k)) sn' =
           (if sn' = sn then or_nil (drawZData s) sn @ [currentDrawZ s]
            else or_nil (drawZData s) sn')"
    using absent by (cases "map_of (rectData s) sn") (simp_all add: addRect_def Let_def or_nil_update)
qed

lemma addRect_keys:
  assumes "layer_inv s"
  shows "map fst (animData (addRect s sn u v x y w h ax ay k)) =
           map fst (rectData (addRect s sn u v x y w h ax ay k))"
    and "map fst (kindData (addRect s sn u v x y w h ax ay k)) =
           map fst (rectData (addRect s sn u v x y w h ax ay k))"
    and "map fst (drawZData (addRect s sn u v x y w h ax ay k)) =
           map fst (rectData (addRect s sn u v x y w h ax ay k))"
    and "distinct (map fst (rectData (addRect s sn u v x y w h ax ay k)))"
proof -
  have keys: "map fst (animData s) = map fst (rectData s)"
    "map fst (kindData s) = map fst (rectData s)"
    "map fst (drawZData s) = map fst (rectData s)"
    and d: "distinct (map fst (rectData s))"
    using assms by (simp_all add: layer_inv_def)
  have im: "fst ` set (animData s) = fst ` set (rectData s)"
    "fst ` set (kindData s) = fst ` set (rectData s)"
    "fst ` set (drawZData s) = fst ` set (rectData s)"
    using keys by (metis list.set_map)+
  have none: "map_of (rectData s) sn = None \<longleftrightarrow> sn \<notin> fst ` set (rectData s)"
    by (simp add: map_of_eq_None_iff)
  show "map fst (animData (addRect s sn u v x y w h ax ay k)) =
           map fst (rectData (addRect s sn u v x y w h ax ay k))"
    using keys im none
    by (cases "map_of (rectData s) sn") (auto simp: addRect_def Let_def map_fst_update)
  show "map fst (kindData (addRect s sn u v x y w h ax ay k)) =
           map fst (rectData (addRect s sn u v x y w h ax ay k))"
    using keys im none
    by (cases "map_of (rectData s) sn") (auto simp: addRect_def Let_def map_fst_update)
  show "map fst (drawZData (addRect s sn u v x y w h ax ay k)) =
           map fst (rectData (addRect s sn u v x y w h ax ay k))"
    using keys im none
    by (cases "map_of (rectData s) sn") (auto simp: addRect_def Let_def map_fst_update)
  show "distinct (map fst (rectData (addRect s sn u v x y w h ax ay k)))"
    using d by (simp add: addRect_rectData distinct_update)
qed

lemma rs_inv_new: "rs_inv new_rect_set"
  by (simp add: rs_inv_def new_rect_set_def)

lemma layer_inv_addRect:
  assumes "layer_inv s"
  shows "layer_inv (addRect s sn u v x y w h ax ay k)"
proof -
  let ?s' = "addRect s sn u v x y w h ax ay k"
  let ?d0 = "case map_of (rectData s) sn of None \<Rightarrow> new_rect_set | Some d \<Rightarrow> d"
  have old: "\<And>k d. map_of (rectData s) k = Some d \<Longrightarrow>
         rs_inv d \<and> length (or_nil (animData s) k) = 2 * count d \<and>
         length (or_nil (kindData s) k) = count d \<and>
         length (or_nil (drawZData s) k) = count d"
    using assms by (simp add: layer_inv_alt)
  have keys: "map fst (animData s) = map fst (rectData s)"
    "map fst (kindData s) = map fst (rectData s)"
    "map fst (drawZData s) = map fst (rectData s)"
    using assms by (simp_all add: layer_inv_def)
  have d0: "rs_inv ?d0 \<and> length (or_nil (animData s) sn) = 2 * count ?d0 \<and>
         length (or_nil (kindData s) sn) = count ?d0 \<and>
         length (or_nil (drawZData s) sn) = count ?d0"
  proof (cases "map_of (rectData s) sn")
    case None
    then have "or_nil (animData s) sn = [] \<and> or_nil (kindData s) sn = [] \<and>
               or_nil (drawZData s) sn = []"
      using keys by (simp add: map_of_None_keys or_nil_absent)
    then show ?thesis
      using None rs_inv_new by (simp add: new_rect_set_def)
  next
    case (Some d)
    then show ?thesis using old by simp
  qed
  have new: "rs_inv d \<and> length (or_nil (animData ?s') k') = 2 * count d \<and>
         length (or_nil (kindData ?s') k') = count d \<and>
         length (or_nil (drawZData ?s') k') = count d"
    if "map_of (rectData ?s') k' = Some d" for k' d
  proof (cases "k' = sn")
    case True
    then have "d = put_rect ?d0 u v x y w h"
      using that by (simp add: addRect_rectData update_conv')
    then show ?thesis
      using d0 True put_rect_props(1,2) [of ?d0 u v x y w h]
      by (simp add: addRect_side [OF assms])
  next
    case False
    then have "map_of (rectData s) k' = Some d"
      using that by (simp add: addRect_rectData update_conv')
    then show ?thesis
      using old False by (simp add: addRect_side [OF assms])
  qed
  have "\<forall>k' d. map_of (rectData ?s') k' = Some d \<longrightarrow>
         rs_inv d \<and> length (or_nil (animData ?s') k') = 2 * count d \<and>
         length (or_nil (kindData ?s') k') = count d \<and>
         length (or_nil (drawZData ?s') k') = count d"
    using new by blast
  then show ?thesis
    unfolding layer_inv_alt
    using addRect_keys [OF assms, of sn u v x y w h ax ay k] by simp
qed

lemma layer_inv_new: "layer_inv new_layer"
  by (simp add: layer_inv_def new_layer_def)

lemma map_of_map_snd:
  "map_of (map (\<lambda>(k, d). (k, f d)) al) k = map_option f (map_of al k)"
  by (induction al) auto

lemma map_fst_map_snd: "map (fst \<circ> (\<lambda>(k, d). (k, f d))) al = map fst al"
  by (induction al) auto

lemma or_nil_cleared: "or_nil (map (\<lambda>(k, a). (k, [])) al) k = []"
  by (simp add: or_nil_def map_of_map_snd split: option.splits)

lemma layer_inv_clear:
  assumes "layer_inv s"
  shows "layer_inv (clear s)"
proof -
  have old: "\<And>k d. map_of (rectData s) k = Some d \<Longrightarrow> rs_inv d"
    using assms by (simp add: layer_inv_alt)
  have "\<forall>k d. map_of (rectData (clear s)) k = Some d \<longrightarrow>
         rs_inv d \<and> length (or_nil (animData (clear s)) k) = 2 * count d \<and>
         length (or_nil (kindData (clear s)) k) = count d \<and>
         length (or_nil (drawZData (clear s)) k) = count d"
    using old by (auto simp: clear_def map_of_map_snd or_nil_cleared rs_inv_def)
  moreover have "distinct (map fst (rectData (clear s)))"
    "map fst (animData (clear s)) = map fst (rectData (clear s))"
    "map fst (kindData (clear s)) = map fst (rectData (clear s))"
    "map fst (drawZData (clear s)) = map fst (rectData (clear s))"
    using assms by (simp_all add: layer_inv_def clear_def map_fst_map_snd)
  ultimately show ?thesis
    unfolding layer_inv_alt by simp
qed

lemma rectData_flush [simp]: "rectData (flush e s) = rectData s"
  by (simp add: flush_def rebuild_def start_rebuild_def updateAnimUVs_def ensureArrayTexture_def
      Let_def)

lemma rectData_setBitmaps [simp]: "rectData (setBitmaps s bms) = rectData s"
  by (simp add: setBitmaps_def)

lemma addRect_capacity_mono:
  assumes "layer_inv s" and "map_of (rectData s) k' = Some d"
  shows "\<exists>d'. map_of (rectData (addRect s sn u v x y w h ax ay k)) k' = Some d' \<and>
              capacity d \<le> capacity d'"
proof (cases "k' = sn")
  case True
  have "rs_inv d" using assms by (simp add: layer_inv_alt)
  then show ?thesis
    using True assms(2) put_rect_props(3) [of d u v x y w h]
    by (simp add: addRect_rectData update_conv')
next
  case False
  then show ?thesis
    using assms(2) by (simp add: addRect_rectData update_conv')
qed

lemma addRect_growth:
  assumes "layer_inv s" and "map_of (rectData s) sn = Some d" and "count d = capacity d"
  shows "\<exists>d'. map_of (rectData (addRect s sn u v x y w h ax ay k)) sn = Some d' \<and>
              capacity d' = 2 * capacity d \<and>
              take (length (positions d)) (positions d') = positions d \<and>
              take (length (uvs d)) (uvs d') = uvs d"
proof -
  have inv: "rs_inv d" using assms by (simp add: layer_inv_alt)
  have len: "length (positions d) = 12 * count d" "length (uvs d) = 12 * count d"
    using inv assms(3) by (simp_all add: rs_inv_def)
  have cap: "capacity (put_rect d u v x y w h) = 2 * capacity d"
    using assms(3) by (simp add: put_rect_def grow_def Let_def)
  have "take (12 * count d) (take (12 * Suc (count d)) (positions (put_rect d u v x y w h))) =
        positions d"
    unfolding put_rect_props(4) [OF inv] using len by simp
  then have p: "take (length (positions d)) (positions (put_rect d u v x y w h)) = positions d"
    using len by (simp add: min_def)
  have "take (12 * count d) (take (12 * Suc (count d)) (uvs (put_rect d u v x y w h))) = uvs d"
    unfolding put_rect_props(5) [OF inv] using len by simp
  then have q: "take (length (uvs d)) (uvs (put_rect d u v x y w h)) = uvs d"
    using len by (simp add: min_def)
  show ?thesis
    using assms(2) cap p q by (simp add: addRect_rectData update_conv')
qed

text \<open>
  Claim C4. In every state that satisfies the accumulator invariant (the constructor's
  state does, and \<open>addRect\<close> and \<open>clear\<close> keep it), every rect set has
  \<open>count \<le> capacity\<close> after \<open>addRect\<close> and after \<open>clear\<close>. An \<open>addRect\<close> on a full
  set doubles its capacity, and the new buffers start with the old buffers unchanged.
  No operation shrinks a capacity: \<open>addRect\<close> and \<open>clear\<close> keep or raise it, and
  \<open>flush\<close> and \<open>setBitmaps\<close> leave the rect sets as they are.
\<close>

theorem rect_set_capacity_invariant:
  assumes "layer_inv s"
  shows "layer_inv new_layer \<and>
         layer_inv (addRect s sn u v x y w h ax ay k) \<and>
         layer_inv (clear s) \<and>
         (\<forall>k' d'. map_of (rectData (addRect s sn u v x y w h ax ay k)) k' = Some d' \<longrightarrow>
            count d' \<le> capacity d') \<and>
         (\<forall>k' d'. map_of (rectData (clear s)) k' = Some d' \<longrightarrow> count d' \<le> capacity d') \<and>
         (\<forall>d. map_of (rectData s) sn = Some d \<and> count d = capacity d \<longrightarrow>
            (\<exists>d'. map_of (rectData (addRect s sn u v x y w h ax ay k)) sn = Some d' \<and>
                  capacity d' = 2 * capacity d \<and>
                  take (length (positions d)) (positions d') = positions d \<and>
                  take (length (uvs d)) (uvs d') = uvs d)) \<and>
         (\<forall>k' d. map_of (rectData s) k' = Some d \<longrightarrow>
            (\<exists>d'. map_of (rectData (addRect s sn u v x y w h ax ay k)) k' = Some d' \<and>
                  capacity d \<le> capacity d') \<and>
            (\<exists>d'. map_of (rectData (clear s)) k' = Some d' \<and> capacity d' = capacity d)) \<and>
         rectData (flush e s) = rectData s \<and>
         rectData (setBitmaps s bms) = rectData s"
proof -
  have a: "layer_inv (addRect s sn u v x y w h ax ay k)"
    by (rule layer_inv_addRect [OF assms])
  have c: "layer_inv (clear s)"
    by (rule layer_inv_clear [OF assms])
  have a1: "\<forall>k' d'. map_of (rectData (addRect s sn u v x y w h ax ay k)) k' = Some d' \<longrightarrow>
            count d' \<le> capacity d'"
    using a by (simp add: layer_inv_alt rs_inv_def)
  have c1: "\<forall>k' d'. map_of (rectData (clear s)) k' = Some d' \<longrightarrow> count d' \<le> capacity d'"
    using c by (simp add: layer_inv_alt rs_inv_def)
  have g: "\<forall>d. map_of (rectData s) sn = Some d \<and> count d = capacity d \<longrightarrow>
            (\<exists>d'. map_of (rectData (addRect s sn u v x y w h ax ay k)) sn = Some d' \<and>
                  capacity d' = 2 * capacity d \<and>
                  take (length (positions d)) (positions d') = positions d \<and>
                  take (length (uvs d)) (uvs d') = uvs d)"
    using addRect_growth [OF assms] by blast
  have m: "\<forall>k' d. map_of (rectData s) k' = Some d \<longrightarrow>
            (\<exists>d'. map_of (rectData (addRect s sn u v x y w h ax ay k)) k' = Some d' \<and>
                  capacity d \<le> capacity d') \<and>
            (\<exists>d'. map_of (rectData (clear s)) k' = Some d' \<and> capacity d' = capacity d)"
    using addRect_capacity_mono [OF assms] by (simp add: clear_def map_of_map_snd)
  show ?thesis
    using layer_inv_new a c a1 c1 g m by simp
qed


text \<open>
  The witness of claim C4 is a layer that really fills a rect set: one thousand calls
  of \<open>addRect\<close> on set 0.
\<close>

lemma put_rect_capacity:
  "count d < capacity d \<Longrightarrow> capacity (put_rect d u v x y w h) = capacity d"
  by (simp add: put_rect_def grow_def Let_def)

lemma same_rects_Suc:
  "same_rects (Suc n) = addRect (same_rects n) 0 0 0 0 0 32 32 None None None"
  by (simp add: same_rects_def)

lemma same_rects_inv: "layer_inv (same_rects n)"
  by (induction n) (simp_all add: same_rects_def layer_inv_new layer_inv_addRect)

lemma same_rects_full:
  "n < 1000 \<Longrightarrow>
   \<exists>d. map_of (rectData (same_rects (Suc n))) 0 = Some d \<and> count d = Suc n \<and> capacity d = 1000"
proof (induction n)
  case 0
  have "map_of (rectData (same_rects 0)) 0 = None"
    by (simp add: same_rects_def new_layer_def)
  then show ?case
    using rs_inv_new put_rect_props(2) [OF rs_inv_new] put_rect_capacity [of new_rect_set]
    by (simp add: same_rects_Suc addRect_rectData update_conv' new_rect_set_def)
next
  case (Suc n)
  then obtain d where d: "map_of (rectData (same_rects (Suc n))) 0 = Some d"
    "count d = Suc n" "capacity d = 1000"
    by auto
  have inv: "rs_inv d"
    using same_rects_inv [of "Suc n"] d(1) by (simp add: layer_inv_alt)
  have "count d < capacity d" using d Suc.prems by simp
  then show ?case
    using d put_rect_props(2) [OF inv] put_rect_capacity [of d]
    by (simp add: same_rects_Suc [of "Suc n"] addRect_rectData update_conv')
qed

theorem rect_set_capacity_invariant_witness:
  "layer_inv (same_rects 1000) \<and>
   count (rect_data_of (same_rects 1000) 0) = 1000 \<and>
   capacity (rect_data_of (same_rects 1000) 0) = 1000 \<and>
   count (rect_data_of (addRect (same_rects 1000) 0 0 0 0 0 32 32 None None None) 0) = 1001 \<and>
   capacity (rect_data_of (addRect (same_rects 1000) 0 0 0 0 0 32 32 None None None) 0) = 2000 \<and>
   take 12000 (positions (rect_data_of (addRect (same_rects 1000) 0 0 0 0 0 32 32 None None None) 0)) =
     positions (rect_data_of (same_rects 1000) 0)"
proof -
  have inv: "layer_inv (same_rects 1000)"
    by (rule same_rects_inv)
  obtain d where d: "map_of (rectData (same_rects 1000)) 0 = Some d"
    "count d = 1000" "capacity d = 1000"
    using same_rects_full [of 999] by auto
  have rd: "rect_data_of (same_rects 1000) 0 = d"
    using d(1) by (simp add: rect_data_of_def)
  have len: "length (positions d) = 12000"
    using inv d by (simp add: layer_inv_alt rs_inv_def)
  obtain d' where d': "map_of (rectData (addRect (same_rects 1000) 0 0 0 0 0 32 32 None None None)) 0
      = Some d'" "capacity d' = 2 * capacity d"
    "take (length (positions d)) (positions d') = positions d"
  proof -
    have "\<forall>d. map_of (rectData (same_rects 1000)) 0 = Some d \<and> count d = capacity d \<longrightarrow>
            (\<exists>d'. map_of (rectData (addRect (same_rects 1000) 0 0 0 0 0 32 32 None None None)) 0
                    = Some d' \<and>
                  capacity d' = 2 * capacity d \<and>
                  take (length (positions d)) (positions d') = positions d \<and>
                  take (length (uvs d)) (uvs d') = uvs d)"
      by (rule rect_set_capacity_invariant [OF inv, of 0 0 0 0 0 32 32 None None None,
            THEN conjunct2, THEN conjunct2, THEN conjunct2, THEN conjunct2, THEN conjunct2,
            THEN conjunct1])
    then show ?thesis
      using d that by fastforce
  qed
  have rd': "rect_data_of (addRect (same_rects 1000) 0 0 0 0 0 32 32 None None None) 0 = d'"
    using d'(1) by (simp add: rect_data_of_def)
  have cnt: "count d' = 1001"
    using put_rect_props(2) [of d 0 0 0 0 32 32] inv d d'(1)
    by (simp add: layer_inv_alt addRect_rectData update_conv')
  show ?thesis
    using inv d d' len cnt by (simp add: rd rd')
qed

subsection \<open>One call of addRect\<close>

lemma rect_data_of_addRect:
  "rect_data_of (addRect s sn u v x y w h ax ay k) k' =
     (if k' = sn
      then put_rect (case map_of (rectData s) sn of None \<Rightarrow> new_rect_set | Some d \<Rightarrow> d) u v x y w h
      else rect_data_of s k')"
  by (simp add: rect_data_of_def addRect_rectData update_conv')

lemma stored_addRect:
  assumes "layer_inv s"
  shows "count (rect_data_of (addRect s sn u v x y w h ax ay k) sn) =
           Suc (count (rect_data_of s sn))"
    and "stored_positions (addRect s sn u v x y w h ax ay k) sn =
           stored_positions s sn @ quad_coords x y w h"
    and "stored_uvs (addRect s sn u v x y w h ax ay k) sn =
           stored_uvs s sn @ quad_coords u v w h"
proof -
  let ?d0 = "case map_of (rectData s) sn of None \<Rightarrow> new_rect_set | Some d \<Rightarrow> d"
  have inv: "rs_inv ?d0"
    using assms by (auto simp: layer_inv_alt rs_inv_new split: option.splits)
  have c0: "count ?d0 = count (rect_data_of s sn)"
    by (simp add: rect_data_of_def new_rect_set_def split: option.splits)
  have p0: "take (12 * count ?d0) (positions ?d0) = stored_positions s sn"
    by (simp add: stored_positions_def rect_data_of_def new_rect_set_def split: option.splits)
  have u0: "take (12 * count ?d0) (uvs ?d0) = stored_uvs s sn"
    by (simp add: stored_uvs_def rect_data_of_def new_rect_set_def split: option.splits)
  show "count (rect_data_of (addRect s sn u v x y w h ax ay k) sn) =
           Suc (count (rect_data_of s sn))"
    using put_rect_props(2) [OF inv] c0 by (simp add: rect_data_of_addRect)
  show "stored_positions (addRect s sn u v x y w h ax ay k) sn =
           stored_positions s sn @ quad_coords x y w h"
    using put_rect_props(2,4) [OF inv, of u v x y w h] p0
    by (simp add: stored_positions_def rect_data_of_addRect)
  show "stored_uvs (addRect s sn u v x y w h ax ay k) sn =
           stored_uvs s sn @ quad_coords u v w h"
    using put_rect_props(2,5) [OF inv, of u v x y w h] u0
    by (simp add: stored_uvs_def rect_data_of_addRect)
qed

lemma stored_new [simp]:
  "stored_positions new_layer sn = []" "stored_uvs new_layer sn = []"
  "count (rect_data_of new_layer sn) = 0"
  "or_nil (animData new_layer) sn = []" "or_nil (kindData new_layer) sn = []"
  "or_nil (drawZData new_layer) sn = []" "currentDrawZ new_layer = 0"
  by (simp_all add: stored_positions_def stored_uvs_def rect_data_of_def new_layer_def or_nil_def)

text \<open>
  Claim C5. In a state that satisfies the accumulator invariant, a call
  \<open>addRect(setNumber, u, v, x, y, w, h, animX, animY, kind)\<close> raises the count of the
  set by exactly one and appends exactly twelve numbers to its stored positions, the
  six vertices TL, TR, BL, TR, BR, BL as \<open>(x, y), (x + w, y), (x, y + h), (x + w, y),
  (x + w, y + h), (x, y + h)\<close>, and twelve to its stored pixel UVs, the same six
  vertices from \<open>(u, v)\<close>. It appends one anim pair (an omitted value is 0), one kind
  (an omitted kind is -1) and the current draw layer; the three side arrays stay in
  lockstep with the count, and no other set changes.
\<close>

theorem addRect_appends_one_quad:
  assumes "layer_inv s"
  shows "count (rect_data_of (addRect s sn u v x y w h animX animY kind) sn) =
           count (rect_data_of s sn) + 1 \<and>
         stored_positions (addRect s sn u v x y w h animX animY kind) sn =
           stored_positions s sn @
             [x, y, x + w, y, x, y + h, x + w, y, x + w, y + h, x, y + h] \<and>
         stored_uvs (addRect s sn u v x y w h animX animY kind) sn =
           stored_uvs s sn @
             [u, v, u + w, v, u, v + h, u + w, v, u + w, v + h, u, v + h] \<and>
         or_nil (animData (addRect s sn u v x y w h animX animY kind)) sn =
           or_nil (animData s) sn @
             [case animX of None \<Rightarrow> 0 | Some a \<Rightarrow> a, case animY of None \<Rightarrow> 0 | Some a \<Rightarrow> a] \<and>
         or_nil (kindData (addRect s sn u v x y w h animX animY kind)) sn =
           or_nil (kindData s) sn @ [case kind of None \<Rightarrow> - 1 | Some c \<Rightarrow> c] \<and>
         or_nil (drawZData (addRect s sn u v x y w h animX animY kind)) sn =
           or_nil (drawZData s) sn @ [currentDrawZ s] \<and>
         length (or_nil (animData (addRect s sn u v x y w h animX animY kind)) sn) =
           2 * count (rect_data_of (addRect s sn u v x y w h animX animY kind) sn) \<and>
         length (or_nil (kindData (addRect s sn u v x y w h animX animY kind)) sn) =
           count (rect_data_of (addRect s sn u v x y w h animX animY kind) sn) \<and>
         length (or_nil (drawZData (addRect s sn u v x y w h animX animY kind)) sn) =
           count (rect_data_of (addRect s sn u v x y w h animX animY kind) sn) \<and>
         (\<forall>k. k \<noteq> sn \<longrightarrow>
            rect_data_of (addRect s sn u v x y w h animX animY kind) k = rect_data_of s k \<and>
            or_nil (animData (addRect s sn u v x y w h animX animY kind)) k =
              or_nil (animData s) k \<and>
            or_nil (kindData (addRect s sn u v x y w h animX animY kind)) k =
              or_nil (kindData s) k \<and>
            or_nil (drawZData (addRect s sn u v x y w h animX animY kind)) k =
              or_nil (drawZData s) k)"
proof -
  let ?s' = "addRect s sn u v x y w h animX animY kind"
  have inv': "layer_inv ?s'"
    by (rule layer_inv_addRect [OF assms])
  have ex: "\<exists>d. map_of (rectData ?s') sn = Some d"
    by (simp add: addRect_rectData update_conv')
  then obtain d where d: "map_of (rectData ?s') sn = Some d" ..
  then have rd: "rect_data_of ?s' sn = d"
    by (simp add: rect_data_of_def)
  have lock: "length (or_nil (animData ?s') sn) = 2 * count (rect_data_of ?s' sn) \<and>
     length (or_nil (kindData ?s') sn) = count (rect_data_of ?s' sn) \<and>
     length (or_nil (drawZData ?s') sn) = count (rect_data_of ?s' sn)"
    using inv' d unfolding rd by (simp add: layer_inv_alt)
  show ?thesis
    using stored_addRect [OF assms, of sn u v x y w h animX animY kind] lock
    by (simp add: addRect_side [OF assms] rect_data_of_addRect quad_coords_def)
qed

theorem addRect_appends_one_quad_witness:
  "layer_inv new_layer \<and>
   count (rect_data_of (addRect new_layer 0 0 0 32 32 32 32 None None None) 0) = 1 \<and>
   stored_positions (addRect new_layer 0 0 0 32 32 32 32 None None None) 0 =
     [32, 32, 64, 32, 32, 64, 64, 32, 64, 64, 32, 64] \<and>
   stored_uvs (addRect new_layer 0 0 0 32 32 32 32 None None None) 0 =
     [0, 0, 32, 0, 0, 32, 32, 0, 32, 32, 0, 32] \<and>
   or_nil (animData (addRect new_layer 0 0 0 32 32 32 32 None None None)) 0 = [0, 0] \<and>
   or_nil (kindData (addRect new_layer 0 0 0 32 32 32 32 None None None)) 0 = [- 1] \<and>
   or_nil (drawZData (addRect new_layer 0 0 0 32 32 32 32 None None None)) 0 = [0]"
  using addRect_appends_one_quad [OF layer_inv_new, of 0 0 0 32 32 32 32 None None None]
    layer_inv_new
  by simp

subsection \<open>The texture scan\<close>

lemma scan_layer_current:
  "layer_current bms (sc_tex st) i \<Longrightarrow> scan_layer bms st i = st"
  by (auto simp: layer_current_def bound_ready_def scan_layer_def bitmap_at_def Let_def
      split: option.splits if_splits)

lemma foldl_scan_current:
  "list_all (layer_current bms (sc_tex st)) xs \<Longrightarrow> foldl (scan_layer bms) st xs = st"
  by (induction xs) (simp_all add: scan_layer_current)

lemma scan_layers_current:
  "all_current bms t \<Longrightarrow>
   scan_layers bms t = \<lparr>sc_copies = [], sc_updated = False, sc_tex = t\<rparr>"
  unfolding scan_layers_def all_current_def by (rule foldl_scan_current) simp

lemma scan_layer_step:
  assumes "at_inv (sc_tex st)" and "i < TILESET_LAYER_COUNT"
  shows "at_inv (sc_tex (scan_layer bms st i))"
    and "layer_current bms (sc_tex (scan_layer bms st i)) i"
    and "layer_current bms (sc_tex st) j \<Longrightarrow> layer_current bms (sc_tex (scan_layer bms st i)) j"
  using assms
  by (auto simp: layer_current_def bound_ready_def scan_layer_def bitmap_at_def Let_def at_inv_def
      nth_list_update split: option.splits if_splits)

lemma foldl_scan_establishes:
  assumes "at_inv (sc_tex st)" and "\<forall>i \<in> set xs. i < TILESET_LAYER_COUNT"
  shows "at_inv (sc_tex (foldl (scan_layer bms) st xs)) \<and>
         (\<forall>i \<in> set xs. layer_current bms (sc_tex (foldl (scan_layer bms) st xs)) i)"
  using assms(2)
proof (induction xs rule: rev_induct)
  case Nil
  then show ?case using assms(1) by simp
next
  case (snoc x xs)
  let ?st = "foldl (scan_layer bms) st xs"
  have ih: "at_inv (sc_tex ?st)" "\<forall>i \<in> set xs. layer_current bms (sc_tex ?st) i"
    using snoc by simp_all
  have x: "x < TILESET_LAYER_COUNT" using snoc.prems by simp
  show ?case
    using scan_layer_step [OF ih(1) x, of bms] ih(2) by simp
qed

lemma scan_layers_establishes:
  assumes "at_inv t"
  shows "at_inv (sc_tex (scan_layers bms t)) \<and> all_current bms (sc_tex (scan_layers bms t))"
  using foldl_scan_establishes [of "\<lparr>sc_copies = [], sc_updated = False, sc_tex = t\<rparr>"
      "[0..<TILESET_LAYER_COUNT]" bms] assms
  by (simp add: scan_layers_def all_current_def list_all_iff)

lemma at_inv_new: "at_inv new_array_texture"
  by (simp add: at_inv_def new_array_texture_def)

lemma all_current_needsUpdate [simp]:
  "all_current bms (t\<lparr>at_needsUpdate := b\<rparr>) = all_current bms t"
proof -
  have "layer_current bms (t\<lparr>at_needsUpdate := b\<rparr>) = layer_current bms t"
    by (rule ext) (simp add: layer_current_def split: option.splits)
  then show ?thesis
    by (simp add: all_current_def)
qed

lemma upt9: "[0..<9] = [0,1,2,3,4,5,6,7,8::nat]"
  by (simp add: upt_rec)

lemma replicate9: "replicate 9 x = [x,x,x,x,x,x,x,x,x]"
  by (simp add: numeral_eq_Suc)

lemma first_scan:
  "ensureArrayTexture (setBitmaps new_layer [Some (IsTexture example_tex)]) =
     ([0], new_layer\<lparr>bitmaps := [Some (IsTexture example_tex)], needsRebuild := True,
        arrayTexture := Some \<lparr>at_data = [tex_image example_tex, None, None, None, None, None, None, None, None],
           at_needsUpdate = True,
           layerLoaded = [True, False, False, False, False, False, False, False, False],
           layerImageVersions = [1, 0, 0, 0, 0, 0, 0, 0, 0]\<rparr>\<rparr>)"
  by (simp add: ensureArrayTexture_def setBitmaps_def new_layer_def scan_layers_def
    TILESET_LAYER_COUNT_def upt9 replicate9 scan_layer_def bitmap_at_def example_tex_def Let_def new_array_texture_def)

text \<open>
  Claim C8. When the array texture exists and every layer is current (each bound,
  ready source image has the recorded version of its layer and the loaded flag of the
  layer is set), the scan copies no layer, its \<^verbatim>\<open>updated\<close> stays false, and the
  state, with the pixel data and the dirty flag of the texture, is unchanged. A scan
  leaves every layer current, so a second scan right after any scan is such a no-op.
\<close>

theorem texture_scan_idempotent:
  "(arrayTexture s = Some t \<and> all_current (bitmaps s) t \<longrightarrow>
      scan_layers (bitmaps s) t = \<lparr>sc_copies = [], sc_updated = False, sc_tex = t\<rparr> \<and>
      ensureArrayTexture s = ([], s)) \<and>
   ((case arrayTexture s of None \<Rightarrow> True | Some t \<Rightarrow> at_inv t) \<longrightarrow>
      ensureArrayTexture (snd (ensureArrayTexture s)) = ([], snd (ensureArrayTexture s)))"
proof (intro conjI impI)
  assume a: "arrayTexture s = Some t \<and> all_current (bitmaps s) t"
  then show "scan_layers (bitmaps s) t = \<lparr>sc_copies = [], sc_updated = False, sc_tex = t\<rparr>"
    by (simp add: scan_layers_current)
  then show "ensureArrayTexture s = ([], s)"
    using a by (simp add: ensureArrayTexture_def Let_def)
next
  assume w: "case arrayTexture s of None \<Rightarrow> True | Some t \<Rightarrow> at_inv t"
  let ?t0 = "case arrayTexture s of None \<Rightarrow> new_array_texture | Some t \<Rightarrow> t"
  let ?st = "scan_layers (bitmaps s) ?t0"
  let ?t1 = "if sc_updated ?st then (sc_tex ?st)\<lparr>at_needsUpdate := True\<rparr> else sc_tex ?st"
  have "at_inv ?t0" using w at_inv_new by (simp split: option.splits)
  then have cur: "all_current (bitmaps s) ?t1"
    using scan_layers_establishes [of ?t0 "bitmaps s"] by simp
  have s1: "snd (ensureArrayTexture s) = s\<lparr>arrayTexture := Some ?t1\<rparr>"
    by (simp add: ensureArrayTexture_def Let_def)
  have "scan_layers (bitmaps s) ?t1 = \<lparr>sc_copies = [], sc_updated = False, sc_tex = ?t1\<rparr>"
    by (rule scan_layers_current [OF cur])
  then have "ensureArrayTexture (s\<lparr>arrayTexture := Some ?t1\<rparr>) = ([], s\<lparr>arrayTexture := Some ?t1\<rparr>)"
    by (simp add: ensureArrayTexture_def Let_def)
  then show "ensureArrayTexture (snd (ensureArrayTexture s)) = ([], snd (ensureArrayTexture s))"
    unfolding s1 .
qed

theorem texture_scan_idempotent_witness:
  "fst (ensureArrayTexture (setBitmaps new_layer [Some (IsTexture example_tex)])) = [0] \<and>
   (case arrayTexture scanned_layer of
      None \<Rightarrow> False
    | Some t \<Rightarrow> all_current (bitmaps scanned_layer) t \<and>
        scan_layers (bitmaps scanned_layer) t = \<lparr>sc_copies = [], sc_updated = False, sc_tex = t\<rparr>) \<and>
   ensureArrayTexture scanned_layer = ([], scanned_layer)"
proof -
  let ?t = "\<lparr>at_data = [tex_image example_tex, None, None, None, None, None, None, None, None],
           at_needsUpdate = True,
           layerLoaded = [True, False, False, False, False, False, False, False, False],
           layerImageVersions = [1, 0, 0, 0, 0, 0, 0, 0, 0]\<rparr>"
  have t: "arrayTexture scanned_layer = Some ?t"
    by (simp add: scanned_layer_def first_scan)
  have b: "bitmaps scanned_layer = [Some (IsTexture example_tex)]"
    by (simp add: scanned_layer_def first_scan)
  have cur: "all_current (bitmaps scanned_layer) ?t"
    unfolding b
    by (simp add: all_current_def layer_current_def bound_ready_def bitmap_at_def
        TILESET_LAYER_COUNT_def upt9 example_tex_def)
  show ?thesis
    using texture_scan_idempotent [of scanned_layer ?t] t cur
    by (simp add: first_scan)
qed

subsection \<open>Flushing twice\<close>

lemma ensure_fields [simp]:
  "needsRebuild (snd (ensureArrayTexture s)) = needsRebuild s"
  "tileAnimX (snd (ensureArrayTexture s)) = tileAnimX s"
  "tileAnimY (snd (ensureArrayTexture s)) = tileAnimY s"
  "lastTileAnimX (snd (ensureArrayTexture s)) = lastTileAnimX s"
  "lastTileAnimY (snd (ensureArrayTexture s)) = lastTileAnimY s"
  "built_geometry (snd (ensureArrayTexture s)) = built_geometry s"
  by (simp_all add: ensureArrayTexture_def Let_def built_geometry_def)

lemma flush_clean:
  "\<not> needsRebuild (flush e s) \<and>
   lastTileAnimX (flush e s) = tileAnimX (flush e s) \<and>
   lastTileAnimY (flush e s) = tileAnimY (flush e s)"
  by (simp add: flush_def rebuild_def start_rebuild_def updateAnimUVs_def Let_def)

lemma flush_of_clean:
  assumes "\<not> needsRebuild s" and "lastTileAnimX s = tileAnimX s" and "lastTileAnimY s = tileAnimY s"
  shows "flush e s = snd (ensureArrayTexture s)"
  using assms by (simp add: flush_def Let_def)

text \<open>
  Claim C9. A second \<open>flush\<close> right after a \<open>flush\<close> (no \<open>addRect\<close>, \<open>clear\<close>,
  \<open>setBitmaps\<close> or change of the animation phase in between) leaves the built
  geometry as the first call produced it: the rect buffers and side arrays, every mesh
  with its position, UV, layer and bounds attributes and its visibility, the unified
  mesh and the recorded unified rects. The environment may differ between the calls.
\<close>

theorem flush_idempotent:
  "built_geometry (flush e2 (flush e1 s)) = built_geometry (flush e1 s)"
  using flush_clean [of e1 s] by (simp add: flush_of_clean)

theorem flush_idempotent_witness:
  "built_geometry
     (flush plain_env (flush plain_env (addRect new_layer 0 0 0 32 32 32 32 None None None))) =
   built_geometry (flush plain_env (addRect new_layer 0 0 0 32 32 32 32 None None None))"
  by (rule flush_idempotent)

subsection \<open>The classifier and the sorter\<close>

lemma classify_set_allRects:
  "cl_allRects (classify_set e s st p) = cl_allRects st @ set_rects e s p"
proof (cases "count (snd p) = 0")
  case True
  then show ?thesis by (simp add: classify_set_def set_rects_def)
next
  case nz: False
  show ?thesis
  proof (cases "fst p = - 1")
    case True
    then show ?thesis using nz by (simp add: classify_set_def set_rects_def)
  next
    case False
    then show ?thesis using nz by (simp add: classify_set_def set_rects_def Let_def)
  qed
qed

lemma foldl_classify_allRects:
  "cl_allRects (foldl (classify_set e s) st ps) = cl_allRects st @ concat (map (set_rects e s) ps)"
proof (induction ps arbitrary: st)
  case Nil
  show ?case by simp
next
  case (Cons p ps)
  have "cl_allRects (foldl (classify_set e s) (classify_set e s st p) ps) =
        cl_allRects (classify_set e s st p) @ concat (map (set_rects e s) ps)"
    by (rule Cons.IH)
  then show ?case
    by (simp add: classify_set_allRects)
qed

lemma classify_allRects:
  "flat_rects e s = concat (map (set_rects e s) (own_entries (rectData s)))"
  by (simp add: flat_rects_def classify_def foldl_classify_allRects)

lemma set_rects_cong:
  "animData s' = animData s \<Longrightarrow> kindData s' = kindData s \<Longrightarrow> drawZData s' = drawZData s \<Longrightarrow>
   set_rects e s' = set_rects e s"
  by (rule ext) (simp add: set_rects_def)

lemma flat_rects_cong:
  "rectData s' = rectData s \<Longrightarrow> animData s' = animData s \<Longrightarrow> kindData s' = kindData s \<Longrightarrow>
   drawZData s' = drawZData s \<Longrightarrow> flat_rects e s' = flat_rects e s"
  using set_rects_cong [of s' s e] by (simp add: classify_allRects)

lemma start_rebuild_fields [simp]:
  "rectData (start_rebuild s) = rectData s"
  "animData (start_rebuild s) = animData s"
  "kindData (start_rebuild s) = kindData s"
  "drawZData (start_rebuild s) = drawZData s"
  "bitmaps (start_rebuild s) = bitmaps s"
  "tileAnimX (start_rebuild s) = tileAnimX s"
  "tileAnimY (start_rebuild s) = tileAnimY s"
  "meshes (start_rebuild s) = map (\<lambda>(k, m). (k, m\<lparr>m_visible := False\<rparr>)) (meshes s)"
  "unifiedMesh (start_rebuild s) =
     (case unifiedMesh s of None \<Rightarrow> None | Some m \<Rightarrow> Some (m\<lparr>m_visible := False\<rparr>))"
  by (simp_all add: start_rebuild_def)

lemma flat_rects_start [simp]: "flat_rects e (start_rebuild s) = flat_rects e s"
  by (rule flat_rects_cong) simp_all

lemma rebuild_fields:
  "unifiedRects (rebuild e s) = Some (sort_by_drawZ (flat_rects e s))"
  "unifiedMesh (rebuild e s) =
     buildUnifiedMesh e (start_rebuild s) (sort_by_drawZ (flat_rects e s)) (tileAnimX s) (tileAnimY s)"
  "meshes (rebuild e s) =
     snd (foldl (build_water_set e (start_rebuild s) (tileAnimX s) (tileAnimY s))
            (bitmaps s, cl_meshes (classify e (start_rebuild s)))
            (map fst (own_entries (map (\<lambda>k. (k, ())) (cl_hasWaterBySet (classify e (start_rebuild s)))))))"
proof -
  have f: "cl_allRects (classify e (start_rebuild s)) = flat_rects e s"
    using flat_rects_start [of e s] by (simp add: flat_rects_def)
  show "unifiedRects (rebuild e s) = Some (sort_by_drawZ (flat_rects e s))"
    unfolding rebuild_def Let_def f by simp
  show "unifiedMesh (rebuild e s) =
     buildUnifiedMesh e (start_rebuild s) (sort_by_drawZ (flat_rects e s)) (tileAnimX s) (tileAnimY s)"
    unfolding rebuild_def Let_def f by simp
  show "meshes (rebuild e s) =
     snd (foldl (build_water_set e (start_rebuild s) (tileAnimX s) (tileAnimY s))
            (bitmaps s, cl_meshes (classify e (start_rebuild s)))
            (map fst (own_entries (map (\<lambda>k. (k, ())) (cl_hasWaterBySet (classify e (start_rebuild s)))))))"
    unfolding rebuild_def Let_def by simp
qed

lemma flat_rects_ensure [simp]: "flat_rects e (snd (ensureArrayTexture s)) = flat_rects e s"
  by (rule flat_rects_cong) (simp_all add: ensureArrayTexture_def Let_def)

lemma flush_rebuilds:
  "needsRebuild s \<Longrightarrow> flush e s = rebuild e (snd (ensureArrayTexture s))"
  by (simp add: flush_def Let_def)

lemma unifiedRects_flush:
  "needsRebuild s \<Longrightarrow> unifiedRects (flush e s) = Some (sort_by_drawZ (flat_rects e s))"
  by (simp add: flush_rebuilds rebuild_fields)


lemma count_put_rect [simp]: "count (put_rect d u v x y w h) = Suc (count d)"
  by (simp add: put_rect_def Let_def)

lemma own_entries_single [simp]: "own_entries [p] = [p]"
  by (simp add: own_entries_def)

lemma addRect_fields [simp]:
  "needsRebuild (addRect s sn u v x y w h ax ay k)"
  "currentDrawZ (addRect s sn u v x y w h ax ay k) = currentDrawZ s"
  "tileAnimX (addRect s sn u v x y w h ax ay k) = tileAnimX s"
  "tileAnimY (addRect s sn u v x y w h ax ay k) = tileAnimY s"
  "meshes (addRect s sn u v x y w h ax ay k) = meshes s"
  "unifiedMesh (addRect s sn u v x y w h ax ay k) = unifiedMesh s"
  "bitmaps (addRect s sn u v x y w h ax ay k) = bitmaps s"
  by (simp_all add: addRect_def Let_def split: option.splits)

lemma setDrawZ_fields [simp]:
  "rectData (setDrawZ s z) = rectData s" "animData (setDrawZ s z) = animData s"
  "kindData (setDrawZ s z) = kindData s" "drawZData (setDrawZ s z) = drawZData s"
  "currentDrawZ (setDrawZ s z) = z" "layer_inv (setDrawZ s z) = layer_inv s"
  by (simp_all add: setDrawZ_def layer_inv_def)

lemma three_rects_inv: "layer_inv (three_rects sn)"
  by (simp add: three_rects_def layer_inv_addRect layer_inv_new)

lemma three_rects_data:
  "\<exists>d. rectData (three_rects sn) = [(sn, d)] \<and> count d = 3"
  by (simp add: three_rects_def addRect_rectData new_layer_def new_rect_set_def)

lemma three_rects_side:
  "or_nil (animData (three_rects sn)) sn = [0, 0, 0, 0, 0, 0]"
  "or_nil (kindData (three_rects sn)) sn = [- 1, - 1, - 1]"
  "or_nil (drawZData (three_rects sn)) sn = [2, 1, 1]"
  by (simp_all add: three_rects_def addRect_side layer_inv_addRect layer_inv_new)

lemma upt3: "[0..<3] = [0, 1, 2::nat]"
  by (simp add: upt_rec)

lemma or0_zeros:
  assumes "set xs \<subseteq> {0}"
  shows "or0 xs i = 0"
proof (cases "i < length xs")
  case True
  then have "xs ! i \<in> set xs" by simp
  with assms have "xs ! i = 0" by blast
  then show ?thesis using True by (simp add: or0_def)
next
  case False
  then show ?thesis by (simp add: or0_def)
qed

lemma three_rects_flat:
  assumes "sn \<noteq> - 1" and "\<forall>ws. ThreeWaterShader e = Some ws \<longrightarrow> \<not> isWaterRect ws 0 0"
  shows "flat_rects e (three_rects sn) =
     [\<lparr>setNumber = sn, index = 0, drawZ = 2\<rparr>, \<lparr>setNumber = sn, index = 1, drawZ = 1\<rparr>,
      \<lparr>setNumber = sn, index = 2, drawZ = 1\<rparr>]"
proof -
  obtain d where d: "rectData (three_rects sn) = [(sn, d)]" "count d = 3"
    using three_rects_data by blast
  have nw: "\<not> is_water e sn [0, 0, 0, 0, 0, 0] [- 1, - 1, - 1] ci" for ci
    using assms(2) by (simp add: is_water_def water_rect_def Let_def or0_zeros split: option.splits)
  show ?thesis
    using assms(1)
    by (simp add: classify_allRects d set_rects_def three_rects_side upt3 nw or0_def)
qed

text \<open>
  Claim C3. On a full rebuild the recorded unified rects are the flat list of the
  classifier, sorted ascending by draw layer, and the sort is stable: for every draw
  layer \<open>z\<close> the rects of layer \<open>z\<close> come in the same order in the sorted list as
  in the flat list; no rect is lost or added. In particular three rects added to one
  set at draw layers 2, 1, 1 (none of them water) come out as the first rect of layer
  1, the second rect of layer 1, then the rect of layer 2.
\<close>

theorem unified_batch_stable_sorted:
  "(needsRebuild s \<longrightarrow>
      (\<exists>rs. unifiedRects (flush e s) = Some rs \<and>
            sorted (map drawZ rs) \<and>
            (\<forall>z. filter (\<lambda>r. drawZ r = z) rs = filter (\<lambda>r. drawZ r = z) (flat_rects e s)) \<and>
            length rs = length (flat_rects e s) \<and>
            set rs = set (flat_rects e s))) \<and>
   (sn \<noteq> - 1 \<and> (\<forall>ws. ThreeWaterShader e = Some ws \<longrightarrow> \<not> isWaterRect ws 0 0) \<longrightarrow>
      unifiedRects (flush e (three_rects sn)) =
        Some [\<lparr>setNumber = sn, index = 1, drawZ = 1\<rparr>, \<lparr>setNumber = sn, index = 2, drawZ = 1\<rparr>,
              \<lparr>setNumber = sn, index = 0, drawZ = 2\<rparr>])"
proof (intro conjI impI)
  assume "needsRebuild s"
  then have "unifiedRects (flush e s) = Some (sort_key drawZ (flat_rects e s))"
    by (simp add: unifiedRects_flush sort_by_drawZ_def)
  moreover have "sorted (map drawZ (sort_key drawZ (flat_rects e s)))"
    by simp
  moreover have "\<forall>z. filter (\<lambda>r. drawZ r = z) (sort_key drawZ (flat_rects e s)) =
                     filter (\<lambda>r. drawZ r = z) (flat_rects e s)"
    by (simp add: sort_key_stable)
  ultimately show "\<exists>rs. unifiedRects (flush e s) = Some rs \<and>
            sorted (map drawZ rs) \<and>
            (\<forall>z. filter (\<lambda>r. drawZ r = z) rs = filter (\<lambda>r. drawZ r = z) (flat_rects e s)) \<and>
            length rs = length (flat_rects e s) \<and>
            set rs = set (flat_rects e s)"
    by simp
next
  assume a: "sn \<noteq> - 1 \<and> (\<forall>ws. ThreeWaterShader e = Some ws \<longrightarrow> \<not> isWaterRect ws 0 0)"
  have nr: "needsRebuild (three_rects sn)"
    by (simp add: three_rects_def)
  show "unifiedRects (flush e (three_rects sn)) =
        Some [\<lparr>setNumber = sn, index = 1, drawZ = 1\<rparr>, \<lparr>setNumber = sn, index = 2, drawZ = 1\<rparr>,
              \<lparr>setNumber = sn, index = 0, drawZ = 2\<rparr>]"
    using a by (simp add: unifiedRects_flush [OF nr] three_rects_flat sort_by_drawZ_def)
qed

theorem unified_batch_stable_sorted_witness:
  "needsRebuild (three_rects 0) \<and>
   unifiedRects (flush plain_env (three_rects 0)) =
     Some [\<lparr>setNumber = 0, index = 1, drawZ = 1\<rparr>, \<lparr>setNumber = 0, index = 2, drawZ = 1\<rparr>,
           \<lparr>setNumber = 0, index = 0, drawZ = 2\<rparr>] \<and>
   flat_rects plain_env (three_rects 0) =
     [\<lparr>setNumber = 0, index = 0, drawZ = 2\<rparr>, \<lparr>setNumber = 0, index = 1, drawZ = 1\<rparr>,
      \<lparr>setNumber = 0, index = 2, drawZ = 1\<rparr>]"
proof -
  have w: "\<forall>ws. ThreeWaterShader plain_env = Some ws \<longrightarrow> \<not> isWaterRect ws 0 0"
    by (simp add: plain_env_def)
  have nr: "needsRebuild (three_rects 0)"
    by (simp add: three_rects_def)
  show ?thesis
    using unified_batch_stable_sorted [of "three_rects 0" plain_env 0] w nr
    by (simp add: three_rects_flat)
qed

subsection \<open>The unified mesh\<close>

lemma upt6: "[0..<6] = [0, 1, 2, 3, 4, 5::nat]"
  by (simp add: upt_rec)

lemma length_blocks [simp]:
  "length (pos_block data i z) = 18"
  "length normal_block = 18"
  "length (unified_uv_block data i ax ay) = 12"
  "length (water_uv_block data i ax ay texW texH) = 12"
  "length (water_bounds_block data i ax ay texW texH) = 24"
  by (simp_all add: pos_block_def normal_block_def unified_uv_block_def water_uv_block_def
      water_bounds_block_def water_bounds_def Let_def upt6)

lemma length_unified_of [simp]:
  "length (unified_uv_of s tax tay r) = 12" "length (unified_pos_of e s r) = 18"
  by (simp_all add: unified_uv_of_def unified_pos_of_def Let_def)

lemma fill_map_fresh:
  assumes "\<And>r. length (f r) = B" and "n = length rs * B"
  shows "fill_blocks (replicate n z) B 0 (map f rs) = concat (map f rs)"
  using assms by (intro fill_blocks_fresh) auto

lemma buildUnifiedMesh_arrays:
  assumes "allRects \<noteq> []"
  shows "\<exists>m. buildUnifiedMesh e s allRects tax tay = Some m \<and> m_visible m \<and>
           m_position m = Some (concat (map (unified_pos_of e s) allRects)) \<and>
           m_normal m = Some (concat (map (\<lambda>r. normal_block) allRects)) \<and>
           m_uv m = Some (concat (map (unified_uv_of s tax tay) allRects)) \<and>
           m_aTextureLayer m = Some (concat (map (\<lambda>r. replicate 6 (setNumber r)) allRects)) \<and>
           m_maxDrawZ m = unified_maxDrawZ s allRects"
proof -
  let ?n = "length allRects"
  have p: "fill_blocks (replicate (?n * 6 * 3) 0) 18 0 (map (unified_pos_of e s) allRects) =
           concat (map (unified_pos_of e s) allRects)"
    by (rule fill_map_fresh) simp_all
  have nr: "fill_blocks (replicate (?n * 6 * 3) 0) 18 0 (map (\<lambda>r. normal_block) allRects) =
           concat (map (\<lambda>r. normal_block) allRects)"
    by (rule fill_map_fresh) simp_all
  have u: "fill_blocks (replicate (?n * 6 * 2) 0) 12 0 (map (unified_uv_of s tax tay) allRects) =
           concat (map (unified_uv_of s tax tay) allRects)"
    by (rule fill_map_fresh) simp_all
  have l: "fill_blocks (replicate (?n * 6) 0) 6 0 (map (\<lambda>r. replicate 6 (setNumber r)) allRects) =
           concat (map (\<lambda>r. replicate 6 (setNumber r)) allRects)"
    by (rule fill_map_fresh) simp_all
  show ?thesis
    using assms unfolding buildUnifiedMesh_def Let_def p nr u l
    by (simp add: new_mesh_def split: option.splits)
qed

lemma unified_of_start [simp]:
  "unified_uv_of (start_rebuild s) = unified_uv_of s"
  "unified_pos_of e (start_rebuild s) = unified_pos_of e s"
  "unified_maxDrawZ (start_rebuild s) = unified_maxDrawZ s"
  by (intro ext, simp add: unified_uv_of_def unified_pos_of_def unified_maxDrawZ_def rect_data_of_def)+

lemma unified_of_ensure [simp]:
  "unified_uv_of (snd (ensureArrayTexture s)) = unified_uv_of s"
  "unified_pos_of e (snd (ensureArrayTexture s)) = unified_pos_of e s"
  "unified_maxDrawZ (snd (ensureArrayTexture s)) = unified_maxDrawZ s"
  by (intro ext, simp add: unified_uv_of_def unified_pos_of_def unified_maxDrawZ_def rect_data_of_def
      ensureArrayTexture_def Let_def)+

lemma unifiedMesh_flush:
  assumes "needsRebuild s" and "flat_rects e s \<noteq> []"
  shows "\<exists>m. unifiedMesh (flush e s) = Some m \<and> m_visible m \<and>
           m_position m = Some (concat (map (unified_pos_of e s) (sort_by_drawZ (flat_rects e s)))) \<and>
           m_uv m = Some (concat (map (unified_uv_of s (tileAnimX s) (tileAnimY s))
                                   (sort_by_drawZ (flat_rects e s)))) \<and>
           m_aTextureLayer m =
             Some (concat (map (\<lambda>r. replicate 6 (setNumber r)) (sort_by_drawZ (flat_rects e s))))"
proof -
  have "length (sort_by_drawZ (flat_rects e s)) = length (flat_rects e s)"
    by (simp add: sort_by_drawZ_def)
  then have ne: "sort_by_drawZ (flat_rects e s) \<noteq> []"
    using assms(2) by (metis length_0_conv)
  obtain m where m: "buildUnifiedMesh e (start_rebuild (snd (ensureArrayTexture s)))
        (sort_by_drawZ (flat_rects e s)) (tileAnimX s) (tileAnimY s) = Some m"
    "m_visible m"
    "m_position m = Some (concat (map (unified_pos_of e s) (sort_by_drawZ (flat_rects e s))))"
    "m_uv m = Some (concat (map (unified_uv_of s (tileAnimX s) (tileAnimY s))
                              (sort_by_drawZ (flat_rects e s))))"
    "m_aTextureLayer m =
       Some (concat (map (\<lambda>r. replicate 6 (setNumber r)) (sort_by_drawZ (flat_rects e s))))"
    using buildUnifiedMesh_arrays [OF ne, of e "start_rebuild (snd (ensureArrayTexture s))"
        "tileAnimX s" "tileAnimY s"]
    by auto
  have "unifiedMesh (flush e s) = Some m"
    using m(1) by (simp add: flush_rebuilds [OF assms(1)] rebuild_fields)
  then show ?thesis
    using m by simp
qed


lemma stored_nth:
  "k < 12 * count (rect_data_of s sn) \<Longrightarrow>
   positions (rect_data_of s sn) ! k = stored_positions s sn ! k"
  "k < 12 * count (rect_data_of s sn) \<Longrightarrow> uvs (rect_data_of s sn) ! k = stored_uvs s sn ! k"
  by (simp_all add: stored_positions_def stored_uvs_def)

lemma one_rect_facts:
  "needsRebuild one_rect" "tileAnimX one_rect = 0" "tileAnimY one_rect = 0"
  "count (rect_data_of one_rect 0) = 1"
  "stored_positions one_rect 0 = quad_coords 32 32 32 32"
  "stored_uvs one_rect 0 = quad_coords 0 0 32 32"
  "or_nil (animData one_rect) 0 = [0, 0]"
  "or_nil (kindData one_rect) 0 = [- 1]"
  "or_nil (drawZData one_rect) 0 = [0]"
proof -
  show "needsRebuild one_rect" "tileAnimX one_rect = 0" "tileAnimY one_rect = 0"
    by (simp_all add: one_rect_def new_layer_def)
  show "count (rect_data_of one_rect 0) = 1"
    "stored_positions one_rect 0 = quad_coords 32 32 32 32"
    "stored_uvs one_rect 0 = quad_coords 0 0 32 32"
    using stored_addRect [OF layer_inv_new, of 0 0 0 32 32 32 32 None None None]
    by (simp_all add: one_rect_def)
  show "or_nil (animData one_rect) 0 = [0, 0]"
    "or_nil (kindData one_rect) 0 = [- 1]"
    "or_nil (drawZData one_rect) 0 = [0]"
    by (simp_all add: one_rect_def addRect_side [OF layer_inv_new])
qed

lemma one_rect_data: "\<exists>d. rectData one_rect = [(0, d)] \<and> count d = 1"
  by (simp add: one_rect_def addRect_rectData new_layer_def new_rect_set_def)

lemma one_rect_flat:
  assumes "\<forall>ws. ThreeWaterShader e = Some ws \<longrightarrow> \<not> isWaterRect ws 0 0"
  shows "flat_rects e one_rect = [\<lparr>setNumber = 0, index = 0, drawZ = 0\<rparr>]"
proof -
  obtain d where d: "rectData one_rect = [(0, d)]" "count d = 1"
    using one_rect_data by blast
  have nw: "\<not> is_water e 0 [0, 0] [- 1] ci" for ci
    using assms by (simp add: is_water_def water_rect_def Let_def or0_zeros split: option.splits)
  show ?thesis
    by (simp add: classify_allRects d set_rects_def one_rect_facts nw or0_def)
qed

lemma one_rect_blocks:
  "unified_pos_of e one_rect \<lparr>setNumber = 0, index = 0, drawZ = 0\<rparr> =
     [32, 32, 0, 64, 32, 0, 32, 64, 0, 64, 32, 0, 64, 64, 0, 32, 64, 0]"
  "unified_uv_of one_rect 0 0 \<lparr>setNumber = 0, index = 0, drawZ = 0\<rparr> =
     [0, 0, 32 / TILESET_TEX_SIZE, 0, 0, 32 / TILESET_TEX_SIZE, 32 / TILESET_TEX_SIZE, 0,
      32 / TILESET_TEX_SIZE, 32 / TILESET_TEX_SIZE, 0, 32 / TILESET_TEX_SIZE]"
  by (simp_all add: unified_pos_of_def unified_uv_of_def Let_def pos_block_def unified_uv_block_def
      upt6 stored_nth one_rect_facts quad_coords_def zOffset_def or0_def)


lemma unified_uv_of_explicit:
  "unified_uv_of s tax tay r =
     concat (map (\<lambda>j.
        [(uvs (rect_data_of s (setNumber r)) ! (index r * 12 + j * 2) +
            or0 (or_nil (animData s) (setNumber r)) (index r * 2) * tax) / TILESET_TEX_SIZE,
         (uvs (rect_data_of s (setNumber r)) ! (index r * 12 + j * 2 + 1) +
            or0 (or_nil (animData s) (setNumber r)) (index r * 2 + 1) * tay) / TILESET_TEX_SIZE])
       [0..<6])"
  by (simp add: unified_uv_of_def unified_uv_block_def Let_def)

text \<open>
  Claim C6. After a full rebuild with at least one unified rect, the unified mesh is
  visible and, rect by rect in sorted order and vertex by vertex, its UV attribute is
  (stored pixel UV + anim offset of the rect times the global phase) divided by the
  fixed layer size, with no vertical flip, and its texture-layer attribute is the set
  number of the rect, six times. In particular \<open>addRect(0, 0, 0, 32, 32, 32, 32)\<close> on a
  new layer followed by \<open>flush\<close> gives one unified rect, one quad over the pixels
  (32, 32)-(64, 64), layer 0, and UVs over (0, 0)-(32 / S, 32 / S) for the layer size
  \<open>S\<close>, provided the rect is not water (the shader module is absent, or does not
  classify the signature (0, 0) as water).
\<close>

theorem unified_mesh_uv_and_layer:
  "(needsRebuild s \<and> flat_rects e s \<noteq> [] \<longrightarrow>
      (\<exists>m. unifiedMesh (flush e s) = Some m \<and> m_visible m \<and>
         m_uv m =
           Some (concat (map (\<lambda>r. concat (map (\<lambda>j.
              [(uvs (rect_data_of s (setNumber r)) ! (index r * 12 + j * 2) +
                  or0 (or_nil (animData s) (setNumber r)) (index r * 2) * tileAnimX s)
                 / TILESET_TEX_SIZE,
               (uvs (rect_data_of s (setNumber r)) ! (index r * 12 + j * 2 + 1) +
                  or0 (or_nil (animData s) (setNumber r)) (index r * 2 + 1) * tileAnimY s)
                 / TILESET_TEX_SIZE])
              [0..<6])) (sort_by_drawZ (flat_rects e s)))) \<and>
         m_aTextureLayer m =
           Some (concat (map (\<lambda>r. replicate 6 (setNumber r)) (sort_by_drawZ (flat_rects e s)))))) \<and>
   ((\<forall>ws. ThreeWaterShader e = Some ws \<longrightarrow> \<not> isWaterRect ws 0 0) \<longrightarrow>
      unifiedRects (flush e one_rect) = Some [\<lparr>setNumber = 0, index = 0, drawZ = 0\<rparr>] \<and>
      (\<exists>m. unifiedMesh (flush e one_rect) = Some m \<and> m_visible m \<and>
         m_position m =
           Some [32, 32, 0, 64, 32, 0, 32, 64, 0, 64, 32, 0, 64, 64, 0, 32, 64, 0] \<and>
         m_uv m =
           Some [0, 0, 32 / TILESET_TEX_SIZE, 0, 0, 32 / TILESET_TEX_SIZE,
                 32 / TILESET_TEX_SIZE, 0, 32 / TILESET_TEX_SIZE, 32 / TILESET_TEX_SIZE,
                 0, 32 / TILESET_TEX_SIZE] \<and>
         m_aTextureLayer m = Some [0, 0, 0, 0, 0, 0]))"
proof (intro conjI impI)
  assume a: "needsRebuild s \<and> flat_rects e s \<noteq> []"
  show "\<exists>m. unifiedMesh (flush e s) = Some m \<and> m_visible m \<and>
         m_uv m =
           Some (concat (map (\<lambda>r. concat (map (\<lambda>j.
              [(uvs (rect_data_of s (setNumber r)) ! (index r * 12 + j * 2) +
                  or0 (or_nil (animData s) (setNumber r)) (index r * 2) * tileAnimX s)
                 / TILESET_TEX_SIZE,
               (uvs (rect_data_of s (setNumber r)) ! (index r * 12 + j * 2 + 1) +
                  or0 (or_nil (animData s) (setNumber r)) (index r * 2 + 1) * tileAnimY s)
                 / TILESET_TEX_SIZE])
              [0..<6])) (sort_by_drawZ (flat_rects e s)))) \<and>
         m_aTextureLayer m =
           Some (concat (map (\<lambda>r. replicate 6 (setNumber r)) (sort_by_drawZ (flat_rects e s))))"
    using unifiedMesh_flush [of s e] a
    unfolding unified_uv_of_explicit by blast
next
  assume w: "\<forall>ws. ThreeWaterShader e = Some ws \<longrightarrow> \<not> isWaterRect ws 0 0"
  show "unifiedRects (flush e one_rect) = Some [\<lparr>setNumber = 0, index = 0, drawZ = 0\<rparr>]"
    by (simp add: unifiedRects_flush one_rect_facts one_rect_flat [OF w] sort_by_drawZ_def)
  show "\<exists>m. unifiedMesh (flush e one_rect) = Some m \<and> m_visible m \<and>
         m_position m =
           Some [32, 32, 0, 64, 32, 0, 32, 64, 0, 64, 32, 0, 64, 64, 0, 32, 64, 0] \<and>
         m_uv m =
           Some [0, 0, 32 / TILESET_TEX_SIZE, 0, 0, 32 / TILESET_TEX_SIZE,
                 32 / TILESET_TEX_SIZE, 0, 32 / TILESET_TEX_SIZE, 32 / TILESET_TEX_SIZE,
                 0, 32 / TILESET_TEX_SIZE] \<and>
         m_aTextureLayer m = Some [0, 0, 0, 0, 0, 0]"
    using unifiedMesh_flush [of one_rect e]
    by (simp add: one_rect_facts one_rect_flat [OF w] sort_by_drawZ_def one_rect_blocks
        numeral_eq_Suc)
qed

theorem unified_mesh_uv_and_layer_witness:
  "needsRebuild one_rect \<and> flat_rects plain_env one_rect \<noteq> [] \<and>
   unifiedRects (flush plain_env one_rect) = Some [\<lparr>setNumber = 0, index = 0, drawZ = 0\<rparr>] \<and>
   (\<exists>m. unifiedMesh (flush plain_env one_rect) = Some m \<and> m_visible m \<and>
      m_position m = Some [32, 32, 0, 64, 32, 0, 32, 64, 0, 64, 32, 0, 64, 64, 0, 32, 64, 0] \<and>
      m_uv m = Some [0, 0, 1 / 24, 0, 0, 1 / 24, 1 / 24, 0, 1 / 24, 1 / 24, 0, 1 / 24] \<and>
      m_aTextureLayer m = Some [0, 0, 0, 0, 0, 0])"
proof -
  have w: "\<forall>ws. ThreeWaterShader plain_env = Some ws \<longrightarrow> \<not> isWaterRect ws 0 0"
    by (simp add: plain_env_def)
  show ?thesis
    using unified_mesh_uv_and_layer [of one_rect plain_env] w
    by (simp add: one_rect_facts one_rect_flat [OF w] TILESET_TEX_SIZE_def)
qed

subsection \<open>The water mesh\<close>

lemma foldl_min_Fin:
  "foldl (\<lambda>m u. if lt_ext u m then Fin u else m) (Fin a) us = Fin (fold min us a)"
proof (induction us arbitrary: a)
  case Nil
  show ?case by simp
next
  case (Cons u us)
  have "(if lt_ext u (Fin a) then Fin u else Fin a) = Fin (min u a)"
    by (simp add: min_def)
  then show ?case
    using Cons.IH [of "min u a"] by simp
qed

lemma foldl_max_Fin:
  "foldl (\<lambda>m u. if gt_ext u m then Fin u else m) (Fin a) us = Fin (fold max us a)"
proof (induction us arbitrary: a)
  case Nil
  show ?case by simp
next
  case (Cons u us)
  have "(if gt_ext u (Fin a) then Fin u else Fin a) = Fin (max u a)"
    by (simp add: max_def)
  then show ?case
    using Cons.IH [of "max u a"] by simp
qed

lemma run_min_Min:
  assumes "us \<noteq> []"
  shows "run_min us = Fin (Min (set us))"
proof (cases us)
  case Nil
  then show ?thesis using assms by simp
next
  case (Cons a list)
  have "Min (set (a # list)) = fold min list a"
    by (rule Min.set_eq_fold)
  then show ?thesis
    using Cons by (simp add: run_min_def foldl_min_Fin)
qed

lemma run_max_Max:
  assumes "us \<noteq> []"
  shows "run_max us = Fin (Max (set us))"
proof (cases us)
  case Nil
  then show ?thesis using assms by simp
next
  case (Cons a list)
  have "Max (set (a # list)) = fold max list a"
    by (rule Max.set_eq_fold)
  then show ?thesis
    using Cons by (simp add: run_max_def foldl_max_Fin)
qed

lemma water_bounds_eq:
  "water_bounds data i ax ay texW texH =
     [Fin (Min (set (water_us data i ax texW)) + (1 / 2) / texW),
      Fin (Min (set (water_vs data i ay texH)) + (1 / 2) / texH),
      Fin (Max (set (water_us data i ax texW)) - (1 / 2) / texW),
      Fin (Max (set (water_vs data i ay texH)) - (1 / 2) / texH)]"
proof -
  have ne: "water_us data i ax texW \<noteq> []" "water_vs data i ay texH \<noteq> []"
    by (simp_all add: water_us_def water_vs_def upt6)
  show ?thesis
    by (simp add: water_bounds_def Let_def run_min_Min [OF ne(1)] run_min_Min [OF ne(2)]
        run_max_Max [OF ne(1)] run_max_Max [OF ne(2)])
qed

lemma buildWaterTypeMesh_arrays:
  "\<exists>m. map_of (buildWaterTypeMesh e s sn meshKey indices data animOffsets tex texW texH tax tay
              isWF a1Kinds ms) meshKey = Some m \<and>
       m_visible m \<and> m_isWaterMesh m \<and> m_isWaterfall m = isWF \<and> m_a1Kinds m = a1Kinds \<and>
       m_map m = Some tex \<and>
       m_position m =
         Some (concat (map (\<lambda>i. pos_block data i
                  (zOffset (tileLayerElevation e) (or0 (or_nil (drawZData s) sn) i))) indices)) \<and>
       m_uv m =
         Some (concat (map (\<lambda>i. water_uv_block data i (or0 animOffsets (i * 2) * tax)
                  (or0 animOffsets (i * 2 + 1) * tay) texW texH) indices)) \<and>
       m_aUvBounds m =
         Some (concat (map (\<lambda>i. water_bounds_block data i (or0 animOffsets (i * 2) * tax)
                  (or0 animOffsets (i * 2 + 1) * tay) texW texH) indices))"
proof -
  let ?n = "length indices"
  let ?pf = "\<lambda>i. pos_block data i (zOffset (tileLayerElevation e) (or0 (or_nil (drawZData s) sn) i))"
  let ?uf = "\<lambda>i. water_uv_block data i (or0 animOffsets (i * 2) * tax)
                  (or0 animOffsets (i * 2 + 1) * tay) texW texH"
  let ?bf = "\<lambda>i. water_bounds_block data i (or0 animOffsets (i * 2) * tax)
                  (or0 animOffsets (i * 2 + 1) * tay) texW texH"
  have p: "fill_blocks (replicate (?n * 6 * 3) 0) 18 0 (map ?pf indices) = concat (map ?pf indices)"
    by (rule fill_map_fresh) simp_all
  have nr: "fill_blocks (replicate (?n * 6 * 3) 0) 18 0 (map (\<lambda>i. normal_block) indices) =
           concat (map (\<lambda>i. normal_block) indices)"
    by (rule fill_map_fresh) simp_all
  have u: "fill_blocks (replicate (?n * 6 * 2) 0) 12 0 (map ?uf indices) = concat (map ?uf indices)"
    by (rule fill_map_fresh) simp_all
  have b: "fill_blocks (replicate (?n * 6 * 4) (Fin 0)) 24 0 (map ?bf indices) =
           concat (map ?bf indices)"
    by (rule fill_map_fresh) simp_all
  show ?thesis
    unfolding buildWaterTypeMesh_def Let_def p nr u b
    by (simp add: update_conv' new_mesh_def split: option.splits)
qed

lemma buildWaterTypeMesh_other:
  "k \<noteq> meshKey \<Longrightarrow>
   map_of (buildWaterTypeMesh e s sn meshKey indices data animOffsets tex texW texH tax tay
              isWF a1Kinds ms) k = map_of ms k"
  by (simp add: buildWaterTypeMesh_def Let_def update_conv')


lemma setBitmaps_fields [simp]:
  "animData (setBitmaps s b) = animData s" "kindData (setBitmaps s b) = kindData s"
  "drawZData (setBitmaps s b) = drawZData s" "bitmaps (setBitmaps s b) = b"
  "tileAnimX (setBitmaps s b) = tileAnimX s" "tileAnimY (setBitmaps s b) = tileAnimY s"
  "lastTileAnimX (setBitmaps s b) = lastTileAnimX s"
  "lastTileAnimY (setBitmaps s b) = lastTileAnimY s"
  "meshes (setBitmaps s b) = meshes s" "unifiedMesh (setBitmaps s b) = unifiedMesh s"
  "currentDrawZ (setBitmaps s b) = currentDrawZ s"
  "layer_inv (setBitmaps s b) = layer_inv s"
  by (simp_all add: setBitmaps_def layer_inv_def)

lemma stored_setBitmaps [simp]:
  "rect_data_of (setBitmaps s b) = rect_data_of s"
  "stored_positions (setBitmaps s b) = stored_positions s"
  "stored_uvs (setBitmaps s b) = stored_uvs s"
  by (intro ext, simp add: rect_data_of_def stored_positions_def stored_uvs_def)+

lemma water_pair_facts:
  "needsRebuild water_pair" "tileAnimX water_pair = 0" "tileAnimY water_pair = 0"
  "lastTileAnimX water_pair = 0" "lastTileAnimY water_pair = 0"
  "bitmaps water_pair = [Some (IsTexture example_tex)]"
  "meshes water_pair = []" "unifiedMesh water_pair = None"
  "layer_inv water_pair"
  "count (rect_data_of water_pair 0) = 2"
  "stored_positions water_pair 0 = quad_coords 0 0 48 48 @ quad_coords 48 0 48 48"
  "stored_uvs water_pair 0 = quad_coords 0 0 48 48 @ quad_coords 96 0 48 48"
  "or_nil (animData water_pair) 0 = [2, 0, 2, 0]"
  "or_nil (kindData water_pair) 0 = [3, - 1]"
  "or_nil (drawZData water_pair) 0 = [0, 0]"
proof -
  let ?s0 = "setBitmaps new_layer [Some (IsTexture example_tex)]"
  let ?s1 = "addRect ?s0 0 0 0 0 0 48 48 (Some 2) (Some 0) (Some 3)"
  have i0: "layer_inv ?s0" by (simp add: layer_inv_new)
  have i1: "layer_inv ?s1" by (rule layer_inv_addRect [OF i0])
  show "needsRebuild water_pair" "tileAnimX water_pair = 0" "tileAnimY water_pair = 0"
    "bitmaps water_pair = [Some (IsTexture example_tex)]"
    "meshes water_pair = []" "unifiedMesh water_pair = None"
    by (simp_all add: water_pair_def new_layer_def)
  show "lastTileAnimX water_pair = 0" "lastTileAnimY water_pair = 0"
    by (simp_all add: water_pair_def addRect_def Let_def new_layer_def split: option.splits)
  show "layer_inv water_pair"
    unfolding water_pair_def by (rule layer_inv_addRect [OF i1])
  show "count (rect_data_of water_pair 0) = 2"
    "stored_positions water_pair 0 = quad_coords 0 0 48 48 @ quad_coords 48 0 48 48"
    "stored_uvs water_pair 0 = quad_coords 0 0 48 48 @ quad_coords 96 0 48 48"
    using stored_addRect [OF i0, of 0 0 0 0 0 48 48 "Some 2" "Some 0" "Some 3"]
      stored_addRect [OF i1, of 0 96 0 48 0 48 48 "Some 2" "Some 0" None]
    by (simp_all add: water_pair_def)
  show "or_nil (animData water_pair) 0 = [2, 0, 2, 0]"
    "or_nil (kindData water_pair) 0 = [3, - 1]"
    "or_nil (drawZData water_pair) 0 = [0, 0]"
    by (simp_all add: water_pair_def addRect_side [OF i1] addRect_side [OF i0])
qed

lemma water_pair_uvs:
  "water_us (rect_data_of water_pair 0) 0 a 768 =
     [a / 768, (48 + a) / 768, a / 768, (48 + a) / 768, (48 + a) / 768, a / 768]"
  "water_vs (rect_data_of water_pair 0) 0 b 768 =
     [1 - b / 768, 1 - b / 768, 1 - (48 + b) / 768, 1 - b / 768, 1 - (48 + b) / 768,
      1 - (48 + b) / 768]"
  "water_us (rect_data_of water_pair 0) 1 a 768 =
     [(96 + a) / 768, (144 + a) / 768, (96 + a) / 768, (144 + a) / 768, (144 + a) / 768,
      (96 + a) / 768]"
  "water_vs (rect_data_of water_pair 0) 1 b 768 =
     [1 - b / 768, 1 - b / 768, 1 - (48 + b) / 768, 1 - b / 768, 1 - (48 + b) / 768,
      1 - (48 + b) / 768]"
  by (simp_all add: water_us_def water_vs_def upt6 stored_nth water_pair_facts quad_coords_def)

text \<open>
  Claim C7. The mesh that \<open>buildWaterTypeMesh\<close> stores under its key carries, for
  each of its rects, the six flipped (bottom-origin) UVs
  \<open>((u + ax) / texW, 1 - (v + ay) / texH)\<close> and, six times over (once for each vertex),
  the box \<open>[uMin, vMin, uMax, vMax]\<close> where \<open>uMin\<close> and \<open>vMin\<close> are the minima of
  those six UVs plus half a texel (\<open>0.5 / texW\<close>, \<open>0.5 / texH\<close>) and \<open>uMax\<close> and
  \<open>vMax\<close> are the maxima minus half a texel.
\<close>

theorem water_uv_bounds_inset:
  "\<exists>m. map_of (buildWaterTypeMesh e s sn meshKey indices data animOffsets tex texW texH tax tay
              isWF a1Kinds ms) meshKey = Some m \<and>
       m_uv m =
         Some (concat (map (\<lambda>i. concat (map (\<lambda>j.
            [water_us data i (or0 animOffsets (i * 2) * tax) texW ! j,
             water_vs data i (or0 animOffsets (i * 2 + 1) * tay) texH ! j]) [0..<6])) indices)) \<and>
       m_aUvBounds m =
         Some (concat (map (\<lambda>i. concat (replicate 6
            [Fin (Min (set (water_us data i (or0 animOffsets (i * 2) * tax) texW)) + (1 / 2) / texW),
             Fin (Min (set (water_vs data i (or0 animOffsets (i * 2 + 1) * tay) texH)) + (1 / 2) / texH),
             Fin (Max (set (water_us data i (or0 animOffsets (i * 2) * tax) texW)) - (1 / 2) / texW),
             Fin (Max (set (water_vs data i (or0 animOffsets (i * 2 + 1) * tay) texH)) - (1 / 2) / texH)]))
            indices))"
proof -
  have b: "water_bounds_block data i ax ay texW texH =
      concat (replicate 6
        [Fin (Min (set (water_us data i ax texW)) + (1 / 2) / texW),
         Fin (Min (set (water_vs data i ay texH)) + (1 / 2) / texH),
         Fin (Max (set (water_us data i ax texW)) - (1 / 2) / texW),
         Fin (Max (set (water_vs data i ay texH)) - (1 / 2) / texH)])" for i ax ay
    by (simp add: water_bounds_block_def water_bounds_eq map_replicate_const)
  show ?thesis
    using buildWaterTypeMesh_arrays [of e s sn meshKey indices data animOffsets tex texW texH
        tax tay isWF a1Kinds ms]
    unfolding b water_uv_block_def by blast
qed

theorem water_uv_bounds_inset_witness:
  "\<exists>m. map_of (buildWaterTypeMesh water_env water_pair 0 (WaterKey 0 False 3) [0]
              (rect_data_of water_pair 0) [2, 0, 2, 0] example_tex 768 768 0 0 False [3] [])
            (WaterKey 0 False 3) = Some m \<and>
       m_uv m = Some [0, 1, 1 / 16, 1, 0, 15 / 16, 1 / 16, 1, 1 / 16, 15 / 16, 0, 15 / 16] \<and>
       m_aUvBounds m =
         Some (concat (replicate 6
           [Fin (1 / 1536), Fin (15 / 16 + 1 / 1536), Fin (1 / 16 - 1 / 1536), Fin (1 - 1 / 1536)]))"
  using water_uv_bounds_inset [of water_env water_pair 0 "WaterKey 0 False 3" "[0]"
      "rect_data_of water_pair 0" "[2, 0, 2, 0]" example_tex 768 768 0 0 False "[3]" "[]"]
  by (simp add: water_pair_uvs upt6 or0_def)

subsection \<open>Water is set 0 only\<close>

lemma set_own_entries [simp]: "set (own_entries al) = set al"
  by (auto simp: own_entries_def)

lemma is_water_other [simp]: "sn \<noteq> 0 \<Longrightarrow> \<not> is_water e sn animOffsets kindArr ci"
  by (simp add: is_water_def)

lemma set_rects_other:
  assumes "sn \<noteq> 0" and "sn \<noteq> - 1"
  shows "set_rects e s (sn, d) =
     map (\<lambda>ci. \<lparr>setNumber = sn, index = ci, drawZ = or0 (or_nil (drawZData s) sn) ci\<rparr>)
       [0..<count d]"
  using assms by (simp add: set_rects_def)

lemma flat_rects_other:
  assumes "(sn, d) \<in> set (rectData s)" and "sn \<noteq> 0" and "sn \<noteq> - 1" and "ci < count d"
  shows "\<lparr>setNumber = sn, index = ci, drawZ = or0 (or_nil (drawZData s) sn) ci\<rparr>
           \<in> set (flat_rects e s)"
proof -
  have "\<lparr>setNumber = sn, index = ci, drawZ = or0 (or_nil (drawZData s) sn) ci\<rparr>
          \<in> set (set_rects e s (sn, d))"
    using assms(4) by (simp add: set_rects_other [OF assms(2,3)])
  then show ?thesis
    using assms(1) by (auto simp: classify_allRects)
qed

lemma buildShadowMesh_other:
  "k \<noteq> ShadowKey \<Longrightarrow> map_of (buildShadowMesh e s d ms) k = map_of ms k"
  by (simp add: buildShadowMesh_def Let_def update_conv' split: option.splits)

lemma classify_set_meshes_other:
  "k \<noteq> ShadowKey \<Longrightarrow> map_of (cl_meshes (classify_set e s st p)) k = map_of (cl_meshes st) k"
proof (cases "count (snd p) = 0")
  case True
  then show ?thesis by (simp add: classify_set_def)
next
  case nz: False
  assume k: "k \<noteq> ShadowKey"
  show ?thesis
  proof (cases "fst p = - 1")
    case True
    then show ?thesis using nz k by (simp add: classify_set_def buildShadowMesh_other)
  next
    case False
    then show ?thesis using nz by (simp add: classify_set_def Let_def)
  qed
qed

lemma classify_set_hasWater:
  "set (cl_hasWaterBySet (classify_set e s st p)) \<subseteq> set (cl_hasWaterBySet st) \<union> {0}"
proof (cases "count (snd p) = 0")
  case True
  then show ?thesis by (auto simp: classify_set_def)
next
  case nz: False
  show ?thesis
  proof (cases "fst p = - 1")
    case True
    then show ?thesis using nz by (auto simp: classify_set_def)
  next
    case f: False
    show ?thesis
    proof (cases "fst p = 0")
      case True
      then show ?thesis using nz f by (auto simp: classify_set_def Let_def)
    next
      case False
      then have "\<not> list_ex (is_water e (fst p) (or_nil (animData s) (fst p))
                    (or_nil (kindData s) (fst p))) [0..<count (snd p)]"
        by (simp add: list_ex_iff)
      then show ?thesis using nz f by (auto simp: classify_set_def Let_def)
    qed
  qed
qed

lemma foldl_classify_other:
  "k \<noteq> ShadowKey \<Longrightarrow>
   map_of (cl_meshes (foldl (classify_set e s) st ps)) k = map_of (cl_meshes st) k"
proof (induction ps arbitrary: st)
  case Nil
  show ?case by simp
next
  case (Cons p ps)
  have "map_of (cl_meshes (foldl (classify_set e s) (classify_set e s st p) ps)) k =
        map_of (cl_meshes (classify_set e s st p)) k"
    by (rule Cons.IH [OF Cons.prems])
  then show ?case
    using Cons.prems by (simp add: classify_set_meshes_other)
qed

lemma foldl_classify_hasWater:
  "set (cl_hasWaterBySet (foldl (classify_set e s) st ps)) \<subseteq> set (cl_hasWaterBySet st) \<union> {0}"
proof (induction ps arbitrary: st)
  case Nil
  show ?case by auto
next
  case (Cons p ps)
  have "set (cl_hasWaterBySet (foldl (classify_set e s) (classify_set e s st p) ps)) \<subseteq>
        set (cl_hasWaterBySet (classify_set e s st p)) \<union> {0}"
    by (rule Cons.IH)
  then show ?case
    using classify_set_hasWater [of e s st p] by auto
qed

lemma classify_hasWater: "set (cl_hasWaterBySet (classify e s)) \<subseteq> {0}"
  using foldl_classify_hasWater [of e s
      "\<lparr>cl_allRects = [], cl_hasWaterBySet = [], cl_meshes = meshes s\<rparr>"
      "own_entries (rectData s)"]
  by (simp add: classify_def)

lemma classify_meshes_other:
  "k \<noteq> ShadowKey \<Longrightarrow> map_of (cl_meshes (classify e s)) k = map_of (meshes s) k"
  by (simp add: classify_def foldl_classify_other)

lemma foldl_groups_other:
  assumes "\<And>fl kd. k \<noteq> WaterKey sn fl kd"
  shows "map_of (foldl (\<lambda>ms' (gk, g).
              if length (g_indices g) > 0
              then buildWaterTypeMesh e s sn (WaterKey sn (fst gk) (snd gk)) (g_indices g) data
                     animOffsets tex texW texH tax tay (g_isWaterfall g) (g_kinds g) ms'
              else ms') ms gs) k = map_of ms k"
proof (induction gs arbitrary: ms)
  case Nil
  show ?case by simp
next
  case (Cons p gs)
  obtain gk g where p: "p = (gk, g)" by (cases p)
  let ?ms1 = "if length (g_indices g) > 0
              then buildWaterTypeMesh e s sn (WaterKey sn (fst gk) (snd gk)) (g_indices g) data
                     animOffsets tex texW texH tax tay (g_isWaterfall g) (g_kinds g) ms
              else ms"
  have one: "map_of ?ms1 k = map_of ms k"
    using assms [of "fst gk" "snd gk"] by (simp add: buildWaterTypeMesh_other)
  have "map_of (foldl (\<lambda>ms' (gk, g).
              if length (g_indices g) > 0
              then buildWaterTypeMesh e s sn (WaterKey sn (fst gk) (snd gk)) (g_indices g) data
                     animOffsets tex texW texH tax tay (g_isWaterfall g) (g_kinds g) ms'
              else ms') ?ms1 gs) k = map_of ?ms1 k"
    by (rule Cons.IH)
  then show ?case
    using one by (simp add: p)
qed

lemma buildWaterMesh_other:
  assumes "\<And>fl kd. k \<noteq> WaterKey sn fl kd"
  shows "map_of (buildWaterMesh e ws s sn data animOffsets tex texW texH tax tay ms) k = map_of ms k"
  unfolding buildWaterMesh_def using assms by (rule foldl_groups_other)

lemma build_water_set_other:
  assumes "\<And>fl kd. k \<noteq> WaterKey wSn fl kd"
  shows "map_of (snd (build_water_set e s tax tay st wSn)) k = map_of (snd st) k"
  using assms
  by (simp add: build_water_set_def Let_def buildWaterMesh_other split: option.splits)

lemma foldl_build_water_other:
  assumes "\<And>wSn fl kd. wSn \<in> set ws \<Longrightarrow> k \<noteq> WaterKey wSn fl kd"
  shows "map_of (snd (foldl (build_water_set e s tax tay) st ws)) k = map_of (snd st) k"
  using assms
proof (induction ws arbitrary: st)
  case Nil
  show ?case by simp
next
  case (Cons w ws)
  have "map_of (snd (foldl (build_water_set e s tax tay) (build_water_set e s tax tay st w) ws)) k =
        map_of (snd (build_water_set e s tax tay st w)) k"
    using Cons.prems by (intro Cons.IH) simp
  moreover have "map_of (snd (build_water_set e s tax tay st w)) k = map_of (snd st) k"
    using Cons.prems by (intro build_water_set_other) simp
  ultimately show ?case by simp
qed

lemma map_of_hidden:
  "map_of (map (\<lambda>(k, m). (k, m\<lparr>m_visible := False\<rparr>)) ms) k =
     map_option (\<lambda>m. m\<lparr>m_visible := False\<rparr>) (map_of ms k)"
  by (rule map_of_map_snd)

lemma water_keys_rebuild:
  "set (map fst (own_entries (map (\<lambda>k. (k, ())) (cl_hasWaterBySet (classify e s))))) \<subseteq> {0}"
  using classify_hasWater [of e s] by (auto simp: image_iff)

lemma meshes_rebuild_other:
  assumes "sn \<noteq> 0"
  shows "map_of (meshes (rebuild e s)) (WaterKey sn fl kd) =
         map_option (\<lambda>m. m\<lparr>m_visible := False\<rparr>) (map_of (meshes s) (WaterKey sn fl kd))"
proof -
  have "map_of (meshes (rebuild e s)) (WaterKey sn fl kd) =
        map_of (snd (bitmaps s, cl_meshes (classify e (start_rebuild s)))) (WaterKey sn fl kd)"
    unfolding rebuild_fields
    using water_keys_rebuild [of e "start_rebuild s"] assms
    by (intro foldl_build_water_other) auto
  then show ?thesis
    by (simp add: classify_meshes_other map_of_hidden)
qed


lemma update_water_meshes_other:
  assumes "\<And>fl kd. k \<noteq> WaterKey sn fl kd"
  shows "map_of (update_water_meshes ws data animOffsets kindArr tax tay sn texW texH ms) k =
         map_of ms k"
proof (induction ms arbitrary: texW texH)
  case Nil
  show ?case by simp
next
  case (Cons p ms)
  obtain mkey wMesh where p: "p = (mkey, wMesh)" by (cases p)
  show ?case
  proof (cases mkey)
    case ShadowKey
    then show ?thesis using Cons.IH by (simp add: p)
  next
    case (WaterKey ksn kfl kk)
    show ?thesis
    proof (cases "ksn = sn")
      case False
      then show ?thesis using Cons.IH WaterKey by (simp add: p)
    next
      case True
      then have ne: "k \<noteq> mkey" using assms [of kfl kk] WaterKey by simp
      show ?thesis
      proof (cases "m_uv wMesh")
        case None
        then show ?thesis using Cons.IH WaterKey True by (simp add: p)
      next
        case (Some a)
        then show ?thesis
          using Cons.IH WaterKey True ne by (simp add: p Let_def)
      qed
    qed
  qed
qed

lemma update_water_set_other:
  assumes "sn \<noteq> 0"
  shows "map_of (update_water_set e s tax tay ms p) (WaterKey sn fl kd) =
         map_of ms (WaterKey sn fl kd)"
proof (cases "fst p = 0")
  case True
  have "WaterKey sn fl kd \<noteq> WaterKey (fst p) fl' kd'" for fl' kd'
    using assms True by simp
  then show ?thesis
    by (simp add: update_water_set_def Let_def update_water_meshes_other split: option.splits)
next
  case False
  then show ?thesis by (simp add: update_water_set_def Let_def)
qed

lemma foldl_update_water_other:
  assumes "sn \<noteq> 0"
  shows "map_of (foldl (update_water_set e s tax tay) ms ps) (WaterKey sn fl kd) =
         map_of ms (WaterKey sn fl kd)"
proof (induction ps arbitrary: ms)
  case Nil
  show ?case by simp
next
  case (Cons p ps)
  have "map_of (foldl (update_water_set e s tax tay) (update_water_set e s tax tay ms p) ps)
          (WaterKey sn fl kd) =
        map_of (update_water_set e s tax tay ms p) (WaterKey sn fl kd)"
    by (rule Cons.IH)
  then show ?case
    by (simp add: update_water_set_other [OF assms])
qed

lemma meshes_updateAnimUVs:
  "meshes (updateAnimUVs e s tax tay) =
     foldl (update_water_set e s tax tay) (meshes s) (own_entries (rectData s))"
  by (simp add: updateAnimUVs_def Let_def)

lemma meshes_ensure [simp]: "meshes (snd (ensureArrayTexture s)) = meshes s"
  by (simp add: ensureArrayTexture_def Let_def)

lemma meshes_flush_other:
  assumes "sn \<noteq> 0"
  shows "map_of (meshes (flush e s)) (WaterKey sn fl kd) =
     (if needsRebuild s
      then map_option (\<lambda>m. m\<lparr>m_visible := False\<rparr>) (map_of (meshes s) (WaterKey sn fl kd))
      else map_of (meshes s) (WaterKey sn fl kd))"
proof (cases "needsRebuild s")
  case True
  then show ?thesis
    by (simp add: flush_rebuilds meshes_rebuild_other [OF assms])
next
  case False
  then show ?thesis
    by (simp add: flush_def Let_def meshes_updateAnimUVs foldl_update_water_other [OF assms])
qed

text \<open>
  Claim C10. The water test of \<open>flush\<close> is false for every rect of a set other than
  0, whatever its anim signature and kind and whatever the classifier answers. So on a
  full rebuild every rect of a set other than 0 and -1 is in the unified rects, tagged
  with its set number, index and draw layer; no water mesh of a set other than 0 is
  built or written (a rebuild only hides the ones that exist), and the animation fast
  path leaves every water mesh of a set other than 0 untouched.
\<close>

theorem water_only_for_set_zero:
  "(sn \<noteq> 0 \<longrightarrow> \<not> is_water e sn animOffsets kindArr ci) \<and>
   (needsRebuild s \<and> (sn, d) \<in> set (rectData s) \<and> sn \<noteq> 0 \<and> sn \<noteq> - 1 \<and> ci < count d \<longrightarrow>
      (\<exists>rs. unifiedRects (flush e s) = Some rs \<and>
            \<lparr>setNumber = sn, index = ci, drawZ = or0 (or_nil (drawZData s) sn) ci\<rparr> \<in> set rs)) \<and>
   (sn \<noteq> 0 \<longrightarrow>
      map_of (meshes (flush e s)) (WaterKey sn fl kd) =
        (if needsRebuild s
         then map_option (\<lambda>m. m\<lparr>m_visible := False\<rparr>) (map_of (meshes s) (WaterKey sn fl kd))
         else map_of (meshes s) (WaterKey sn fl kd))) \<and>
   (sn \<noteq> 0 \<longrightarrow>
      map_of (meshes (updateAnimUVs e s tax tay)) (WaterKey sn fl kd) =
        map_of (meshes s) (WaterKey sn fl kd))"
proof (intro conjI impI)
  assume "sn \<noteq> 0"
  then show "\<not> is_water e sn animOffsets kindArr ci" by simp
next
  assume a: "needsRebuild s \<and> (sn, d) \<in> set (rectData s) \<and> sn \<noteq> 0 \<and> sn \<noteq> - 1 \<and> ci < count d"
  then have "\<lparr>setNumber = sn, index = ci, drawZ = or0 (or_nil (drawZData s) sn) ci\<rparr>
               \<in> set (sort_by_drawZ (flat_rects e s))"
    using flat_rects_other [of sn d s ci e] by (simp add: sort_by_drawZ_def)
  then show "\<exists>rs. unifiedRects (flush e s) = Some rs \<and>
            \<lparr>setNumber = sn, index = ci, drawZ = or0 (or_nil (drawZData s) sn) ci\<rparr> \<in> set rs"
    using a by (simp add: unifiedRects_flush)
next
  assume "sn \<noteq> 0"
  then show "map_of (meshes (flush e s)) (WaterKey sn fl kd) =
        (if needsRebuild s
         then map_option (\<lambda>m. m\<lparr>m_visible := False\<rparr>) (map_of (meshes s) (WaterKey sn fl kd))
         else map_of (meshes s) (WaterKey sn fl kd))"
    by (rule meshes_flush_other)
next
  assume "sn \<noteq> 0"
  then show "map_of (meshes (updateAnimUVs e s tax tay)) (WaterKey sn fl kd) =
        map_of (meshes s) (WaterKey sn fl kd)"
    by (simp add: meshes_updateAnimUVs foldl_update_water_other)
qed


lemma set1_water_facts:
  "needsRebuild set1_water" "meshes set1_water = []"
  "\<exists>d. rectData set1_water = [(1, d)] \<and> count d = 1"
  "or_nil (animData set1_water) 1 = [2, 0]"
  "or_nil (kindData set1_water) 1 = [3]"
  "or_nil (drawZData set1_water) 1 = [0]"
proof -
  show "needsRebuild set1_water" "meshes set1_water = []"
    by (simp_all add: set1_water_def new_layer_def)
  show "\<exists>d. rectData set1_water = [(1, d)] \<and> count d = 1"
    by (simp add: set1_water_def addRect_rectData new_layer_def new_rect_set_def)
  show "or_nil (animData set1_water) 1 = [2, 0]"
    "or_nil (kindData set1_water) 1 = [3]"
    "or_nil (drawZData set1_water) 1 = [0]"
    by (simp_all add: set1_water_def addRect_side [OF layer_inv_new])
qed

lemma set1_water_classified: "water_rect example_shader [2, 0] [3] 0"
  by (simp add: water_rect_def example_shader_def or0_def kind_at_def)

theorem water_only_for_set_zero_witness:
  "needsRebuild set1_water \<and>
   water_rect example_shader (or_nil (animData set1_water) 1) (or_nil (kindData set1_water) 1) 0 \<and>
   (\<exists>rs. unifiedRects (flush water_env set1_water) = Some rs \<and>
         \<lparr>setNumber = 1, index = 0, drawZ = 0\<rparr> \<in> set rs) \<and>
   map_of (meshes (flush water_env set1_water)) (WaterKey 1 False 3) = None"
proof -
  obtain d where d: "rectData set1_water = [(1, d)]" "count d = 1"
    using set1_water_facts(3) by blast
  have "(1, d) \<in> set (rectData set1_water)"
    by (simp add: d)
  then show ?thesis
    using water_only_for_set_zero [of 1 water_env _ _ 0 set1_water d False 3] d
    by (simp add: set1_water_facts set1_water_classified or0_def)
qed

subsection \<open>The animation fast path on water meshes\<close>

lemma write_block_nth:
  "k < length arr \<Longrightarrow>
   write_block arr off vs ! k =
     (if off \<le> k \<and> k < off + length vs then vs ! (k - off) else arr ! k)"
proof (induction vs arbitrary: arr off)
  case Nil
  show ?case by auto
next
  case (Cons v vs)
  have "write_block (arr[off := v]) (Suc off) vs ! k =
        (if Suc off \<le> k \<and> k < Suc off + length vs then vs ! (k - Suc off)
         else (arr[off := v]) ! k)"
    using Cons.prems by (intro Cons.IH) simp
  then show ?case
    using Cons.prems by (auto simp: nth_list_update nth_Cons' Suc_diff_le)
qed

lemma fill_blocks_nth:
  assumes "\<forall>q \<in> set qs. length q = B" and "k < length arr"
  shows "fill_blocks arr B ri qs ! k =
     (if ri * B \<le> k \<and> k < ri * B + length qs * B then concat qs ! (k - ri * B) else arr ! k)"
  using assms
proof (induction qs arbitrary: arr ri)
  case Nil
  show ?case by auto
next
  case (Cons q qs)
  have lq: "length q = B" using Cons.prems(1) by simp
  let ?arr' = "write_block arr (ri * B) q"
  let ?a = "ri * B"
  let ?n = "length qs * B"
  have ih: "fill_blocks ?arr' B (Suc ri) qs ! k =
     (if ?a + B \<le> k \<and> k < ?a + B + ?n then concat qs ! (k - (?a + B)) else ?arr' ! k)"
    using Cons.IH [of ?arr' "Suc ri"] Cons.prems by (simp add: add.commute)
  have w: "?arr' ! k = (if ?a \<le> k \<and> k < ?a + B then q ! (k - ?a) else arr ! k)"
    using write_block_nth [OF Cons.prems(2), of ?a q] lq by simp
  have goal: "fill_blocks arr B ri (q # qs) ! k = fill_blocks ?arr' B (Suc ri) qs ! k"
    by simp
  have len: "length (q # qs) * B = B + ?n" by simp
  show ?case
  proof (cases "?a \<le> k \<and> k < ?a + B")
    case True
    then have "k - ?a < length q" using lq by linarith
    then have "concat (q # qs) ! (k - ?a) = q ! (k - ?a)"
      by (simp add: nth_append)
    moreover have c3: "?a \<le> k \<and> k < ?a + (B + ?n)" using True by linarith
    moreover have c2: "\<not> (?a + B \<le> k \<and> k < ?a + B + ?n)" using True by linarith
    ultimately show ?thesis
      by (simp only: goal ih w len True c2 c3 if_True if_False simp_thms)
  next
    case out: False
    show ?thesis
    proof (cases "?a + B \<le> k \<and> k < ?a + B + ?n")
      case True
      then have "\<not> k - ?a < length q" using lq by linarith
      moreover have "k - ?a - length q = k - (?a + B)" using lq by linarith
      ultimately have "concat (q # qs) ! (k - ?a) = concat qs ! (k - (?a + B))"
        by (simp add: nth_append)
      moreover have c3: "?a \<le> k \<and> k < ?a + (B + ?n)" using True by linarith
      ultimately show ?thesis
        by (simp only: goal ih w len True c3 if_True if_False simp_thms)
    next
      case False
      then have c3: "\<not> (?a \<le> k \<and> k < ?a + (B + ?n))" using out by linarith
      show ?thesis
        by (simp only: goal ih w len False out c3 if_True if_False simp_thms)
    qed
  qed
qed

lemma fill_blocks_general:
  assumes "\<forall>q \<in> set qs. length q = B"
  shows "fill_blocks arr B 0 qs =
     take (length arr) (concat qs) @ drop (length qs * B) arr"
proof (rule nth_equalityI)
  have lc: "length (concat qs) = length qs * B"
    using assms by (induction qs) simp_all
  show "length (fill_blocks arr B 0 qs) =
        length (take (length arr) (concat qs) @ drop (length qs * B) arr)"
    by (simp add: lc min_def)
  fix k
  assume "k < length (fill_blocks arr B 0 qs)"
  then have k: "k < length arr" by simp
  show "fill_blocks arr B 0 qs ! k =
        (take (length arr) (concat qs) @ drop (length qs * B) arr) ! k"
    using fill_blocks_nth [OF assms k, of 0] k
    by (auto simp: nth_append lc min_def)
qed

lemma update_absent: "map_of al k = None \<Longrightarrow> AList.update k v al = al @ [(k, v)]"
  by (induction al) (auto split: if_splits)


lemma upt2: "[0..<2] = [0, 1::nat]"
  by (simp add: upt_rec)

lemma water_pair_rectData: "rectData water_pair = [(0, rect_data_of water_pair 0)]"
  by (simp add: water_pair_def addRect_rectData rect_data_of_def setBitmaps_def new_layer_def)

lemma water_at_facts:
  "needsRebuild (water_at p)" "tileAnimX (water_at p) = p" "tileAnimY (water_at p) = 0"
  "bitmaps (water_at p) = [Some (IsTexture example_tex)]"
  "meshes (water_at p) = []"
  "rectData (water_at p) = [(0, rect_data_of water_pair 0)]"
  "animData (water_at p) = animData water_pair"
  "kindData (water_at p) = kindData water_pair"
  "drawZData (water_at p) = drawZData water_pair"
  by (simp_all add: water_at_def setAnimationOffset_def water_pair_facts water_pair_rectData)

lemma side_ensure [simp]:
  "animData (snd (ensureArrayTexture s)) = animData s"
  "kindData (snd (ensureArrayTexture s)) = kindData s"
  "drawZData (snd (ensureArrayTexture s)) = drawZData s"
  "rectData (snd (ensureArrayTexture s)) = rectData s"
  "bitmaps (snd (ensureArrayTexture s)) = bitmaps s"
  "unifiedMesh (snd (ensureArrayTexture s)) = unifiedMesh s"
  by (simp_all add: ensureArrayTexture_def Let_def)

lemma example_water_rect:
  "water_rect example_shader [2, 0, 2, 0] [3, - 1] 0"
  "water_rect example_shader [2, 0, 2, 0] [3, - 1] (Suc 0)"
  by (simp_all add: water_rect_def example_shader_def or0_def kind_at_def)

lemma classify_water_pair:
  assumes "rectData s = [(0, d)]" and "count d = 2"
    and "animData s = animData water_pair" and "kindData s = kindData water_pair"
  shows "classify water_env s = \<lparr>cl_allRects = [], cl_hasWaterBySet = [0], cl_meshes = meshes s\<rparr>"
proof -
  have w: "is_water water_env 0 [2, 0, 2, 0] [3, - 1] 0"
    "is_water water_env 0 [2, 0, 2, 0] [3, - 1] (Suc 0)"
    by (simp_all add: is_water_def water_env_def example_water_rect)
  show ?thesis
    using w by (simp add: classify_def assms classify_set_def Let_def water_pair_facts upt2)
qed

lemma example_groups:
  "water_groups example_shader [2, 0, 2, 0] [3, - 1] 2 =
     [((False, 3), \<lparr>g_indices = [0], g_isWaterfall = False, g_kinds = [3]\<rparr>),
      ((False, - 1), \<lparr>g_indices = [Suc 0], g_isWaterfall = False, g_kinds = []\<rparr>)]"
  by (simp add: water_groups_def upt2 group_rect_def Let_def example_shader_def or0_def kind_at_def)


lemma buildWaterTypeMesh_fresh:
  assumes "map_of ms meshKey = None"
  shows "\<exists>m. buildWaterTypeMesh e s sn meshKey indices data animOffsets tex texW texH tax tay
              isWF a1Kinds ms = ms @ [(meshKey, m)] \<and>
       m_isWaterfall m = isWF \<and> m_a1Kinds m = a1Kinds \<and> m_map m = Some tex \<and>
       m_uv m =
         Some (concat (map (\<lambda>i. water_uv_block data i (or0 animOffsets (i * 2) * tax)
                  (or0 animOffsets (i * 2 + 1) * tay) texW texH) indices)) \<and>
       m_aUvBounds m =
         Some (concat (map (\<lambda>i. water_bounds_block data i (or0 animOffsets (i * 2) * tax)
                  (or0 animOffsets (i * 2 + 1) * tay) texW texH) indices))"
proof -
  let ?n = "length indices"
  let ?uf = "\<lambda>i. water_uv_block data i (or0 animOffsets (i * 2) * tax)
                  (or0 animOffsets (i * 2 + 1) * tay) texW texH"
  let ?bf = "\<lambda>i. water_bounds_block data i (or0 animOffsets (i * 2) * tax)
                  (or0 animOffsets (i * 2 + 1) * tay) texW texH"
  have u: "fill_blocks (replicate (?n * 6 * 2) 0) 12 0 (map ?uf indices) = concat (map ?uf indices)"
    by (rule fill_map_fresh) simp_all
  have b: "fill_blocks (replicate (?n * 6 * 4) (Fin 0)) 24 0 (map ?bf indices) =
           concat (map ?bf indices)"
    by (rule fill_map_fresh) simp_all
  show ?thesis
    unfolding buildWaterTypeMesh_def Let_def u b
    by (simp add: assms update_absent new_mesh_def)
qed

lemma water_at_s1:
  "classify water_env (start_rebuild (snd (ensureArrayTexture (water_at p)))) =
     \<lparr>cl_allRects = [], cl_hasWaterBySet = [0], cl_meshes = []\<rparr>"
  "rect_data_of (start_rebuild (snd (ensureArrayTexture (water_at p)))) 0 = rect_data_of water_pair 0"
  "or_nil (animData (start_rebuild (snd (ensureArrayTexture (water_at p))))) 0 = [2, 0, 2, 0]"
  "or_nil (kindData (start_rebuild (snd (ensureArrayTexture (water_at p))))) 0 = [3, - 1]"
  "bitmaps (start_rebuild (snd (ensureArrayTexture (water_at p)))) = [Some (IsTexture example_tex)]"
proof -
  let ?d = "rect_data_of water_pair 0"
  let ?s1 = "start_rebuild (snd (ensureArrayTexture (water_at p)))"
  show "classify water_env ?s1 = \<lparr>cl_allRects = [], cl_hasWaterBySet = [0], cl_meshes = []\<rparr>"
    using classify_water_pair [of ?s1 ?d]
    by (simp add: water_at_facts water_pair_facts)
  show "rect_data_of ?s1 0 = ?d"
    by (simp add: rect_data_of_def water_at_facts)
  show "or_nil (animData ?s1) 0 = [2, 0, 2, 0]" "or_nil (kindData ?s1) 0 = [3, - 1]"
    by (simp_all add: water_at_facts water_pair_facts)
  show "bitmaps ?s1 = [Some (IsTexture example_tex)]"
    by (simp add: water_at_facts)
qed


lemma example_tex_dims:
  "extractThreeTexture (bitmap_at [Some (IsTexture example_tex)] 0) = Some example_tex"
  "tex_image example_tex = Some \<lparr>img_width = 768, img_height = 768, img_pixels = 1\<rparr>"
  "tex_dim 768 = 768"
  "nearest_filter example_tex = example_tex"
  by (simp_all add: bitmap_at_def example_tex_def tex_dim_def nearest_filter_def)

lemma build_water_set_example:
  "snd (build_water_set water_env (start_rebuild (snd (ensureArrayTexture (water_at p)))) tax tay
          ([Some (IsTexture example_tex)], ms) 0) =
     buildWaterMesh water_env example_shader (start_rebuild (snd (ensureArrayTexture (water_at p))))
       0 (rect_data_of water_pair 0) [2, 0, 2, 0] example_tex 768 768 tax tay ms"
  unfolding build_water_set_def Let_def water_at_s1
  by (simp add: example_tex_dims water_env_def)


lemma meshes_flush_water_at:
  "meshes (flush water_env (water_at p)) =
     buildWaterMesh water_env example_shader (start_rebuild (snd (ensureArrayTexture (water_at p))))
       0 (rect_data_of water_pair 0) [2, 0, 2, 0] example_tex 768 768 p 0 []"
proof -
  have "meshes (flush water_env (water_at p)) =
        meshes (rebuild water_env (snd (ensureArrayTexture (water_at p))))"
    by (simp add: flush_rebuilds water_at_facts)
  also have "\<dots> = snd (build_water_set water_env
                           (start_rebuild (snd (ensureArrayTexture (water_at p)))) p 0
                           ([Some (IsTexture example_tex)], []) 0)"
    unfolding rebuild_fields water_at_s1
    by (simp add: ensureArrayTexture_def Let_def water_at_facts)
  finally show ?thesis
    by (simp only: build_water_set_example)
qed

lemma buildWaterMesh_example:
  assumes "or_nil (kindData s) 0 = [3, - 1]"
  shows "buildWaterMesh water_env example_shader s 0 (rect_data_of water_pair 0) [2, 0, 2, 0]
           example_tex 768 768 tax tay ms =
     buildWaterTypeMesh water_env s 0 (WaterKey 0 False (- 1)) [Suc 0] (rect_data_of water_pair 0)
       [2, 0, 2, 0] example_tex 768 768 tax tay False []
       (buildWaterTypeMesh water_env s 0 (WaterKey 0 False 3) [0] (rect_data_of water_pair 0)
          [2, 0, 2, 0] example_tex 768 768 tax tay False [3] ms)"
  unfolding buildWaterMesh_def assms water_pair_facts example_groups
  by simp


lemma fresh_example:
  assumes "map_of ms (WaterKey 0 fl kd) = None"
  shows "\<exists>m. buildWaterTypeMesh water_env s 0 (WaterKey 0 fl kd) [i] (rect_data_of water_pair 0)
              [2, 0, 2, 0] example_tex 768 768 p 0 isWF kinds ms = ms @ [(WaterKey 0 fl kd, m)] \<and>
       m_isWaterfall m = isWF \<and> m_a1Kinds m = kinds \<and> m_map m = Some example_tex \<and>
       m_uv m = Some (water_uv_block (rect_data_of water_pair 0) i
                        (or0 [2, 0, 2, 0] (i * 2) * p) 0 768 768) \<and>
       m_aUvBounds m = Some (water_bounds_block (rect_data_of water_pair 0) i
                        (or0 [2, 0, 2, 0] (i * 2) * p) 0 768 768)"
  using buildWaterTypeMesh_fresh [OF assms, of water_env s 0 "[i]" "rect_data_of water_pair 0"
        "[2, 0, 2, 0]" example_tex 768 768 p 0 isWF kinds]
  by simp

lemma water_at_rebuilt:
  "\<exists>m3 m1. meshes (flush water_env (water_at p)) =
       [(WaterKey 0 False 3, m3), (WaterKey 0 False (- 1), m1)] \<and>
     m_isWaterfall m3 = False \<and> m_a1Kinds m3 = [3] \<and> m_map m3 = Some example_tex \<and>
     m_uv m3 = Some (water_uv_block (rect_data_of water_pair 0) 0 (2 * p) 0 768 768) \<and>
     m_aUvBounds m3 = Some (water_bounds_block (rect_data_of water_pair 0) 0 (2 * p) 0 768 768) \<and>
     m_isWaterfall m1 = False \<and> m_a1Kinds m1 = [] \<and> m_map m1 = Some example_tex \<and>
     m_uv m1 = Some (water_uv_block (rect_data_of water_pair 0) 1 (2 * p) 0 768 768) \<and>
     m_aUvBounds m1 = Some (water_bounds_block (rect_data_of water_pair 0) 1 (2 * p) 0 768 768)"
proof -
  let ?d = "rect_data_of water_pair 0"
  let ?s1 = "start_rebuild (snd (ensureArrayTexture (water_at p)))"
  have o0: "or0 [2, 0, 2, 0] (0 * 2) = (2::rat)" "or0 [2, 0, 2, 0] (Suc 0 * 2) = (2::rat)"
    by (simp_all add: or0_def)
  obtain m3 where m3:
    "buildWaterTypeMesh water_env ?s1 0 (WaterKey 0 False 3) [0] ?d [2, 0, 2, 0] example_tex
       768 768 p 0 False [3] [] = [] @ [(WaterKey 0 False 3, m3)]"
    "m_isWaterfall m3 = False" "m_a1Kinds m3 = [3]" "m_map m3 = Some example_tex"
    "m_uv m3 = Some (water_uv_block ?d 0 (2 * p) 0 768 768)"
    "m_aUvBounds m3 = Some (water_bounds_block ?d 0 (2 * p) 0 768 768)"
    using fresh_example [of "[]" False 3 ?s1 0 p False "[3]"] unfolding o0 by auto
  have none: "map_of [(WaterKey 0 False 3, m3)] (WaterKey 0 False (- 1)) = None"
    by simp
  obtain m1 where m1:
    "buildWaterTypeMesh water_env ?s1 0 (WaterKey 0 False (- 1)) [Suc 0] ?d [2, 0, 2, 0] example_tex
       768 768 p 0 False [] [(WaterKey 0 False 3, m3)] =
     [(WaterKey 0 False 3, m3)] @ [(WaterKey 0 False (- 1), m1)]"
    "m_isWaterfall m1 = False" "m_a1Kinds m1 = []" "m_map m1 = Some example_tex"
    "m_uv m1 = Some (water_uv_block ?d (Suc 0) (2 * p) 0 768 768)"
    "m_aUvBounds m1 = Some (water_bounds_block ?d (Suc 0) (2 * p) 0 768 768)"
    using fresh_example [OF none, of ?s1 "Suc 0" p False "[]"] unfolding o0 by auto
  have "meshes (flush water_env (water_at p)) =
        [(WaterKey 0 False 3, m3), (WaterKey 0 False (- 1), m1)]"
    unfolding meshes_flush_water_at buildWaterMesh_example [OF water_at_s1(4)] m3(1) append_Nil m1(1)
    by simp
  then show ?thesis
    using m3(2-) m1(2-) by auto
qed


lemma side_flush [simp]:
  "animData (flush e s) = animData s" "kindData (flush e s) = kindData s"
  "drawZData (flush e s) = drawZData s" "tileAnimX (flush e s) = tileAnimX s"
  "tileAnimY (flush e s) = tileAnimY s"
  by (simp_all add: flush_def rebuild_def start_rebuild_def updateAnimUVs_def Let_def)

lemma example_selected:
  "water_selected example_shader [2, 0, 2, 0] [3, - 1] [3] False 2 = [0]"
  "water_selected example_shader [2, 0, 2, 0] [3, - 1] [] False 2 = [0, Suc 0]"
  by (simp_all add: water_selected_def upt2 example_shader_def or0_def kind_at_def Let_def)

lemma write_block_full: "length arr = length vs \<Longrightarrow> write_block arr 0 vs = vs"
  using write_block_eq [of 0 vs arr] by simp

lemma write_block_beyond: "length arr \<le> off \<Longrightarrow> write_block arr off vs = arr"
proof (induction vs arbitrary: off)
  case Nil
  show ?case by simp
next
  case (Cons v vs)
  have "arr[off := v] = arr"
    using Cons.prems by (simp add: list_update_beyond)
  moreover have "write_block arr (Suc off) vs = arr"
    using Cons.prems by (intro Cons.IH) simp
  ultimately show ?case by simp
qed

lemma fast_path_example:
  assumes "m_uv m3 = Some a3" "length a3 = 12" "m_aUvBounds m3 = Some b3" "length b3 = 24"
    and "m_uv m1 = Some a1" "length a1 = 12" "m_aUvBounds m1 = Some b1" "length b1 = 24"
    and "m_map m3 = Some example_tex" "m_map m1 = Some example_tex"
    and "m_a1Kinds m3 = [3]" "m_a1Kinds m1 = []"
    and "\<not> m_isWaterfall m3" "\<not> m_isWaterfall m1" and "count d = 2"
  shows "update_water_meshes example_shader d [2, 0, 2, 0] [3, - 1] tax tay 0 1 1
           [(WaterKey 0 False 3, m3), (WaterKey 0 False (- 1), m1)] =
         [(WaterKey 0 False 3,
             m3\<lparr>m_uv := Some (water_uv_block d 0 (2 * tax) 0 768 768),
                m_aUvBounds := Some (water_bounds_block d 0 (2 * tax) 0 768 768)\<rparr>),
          (WaterKey 0 False (- 1),
             m1\<lparr>m_uv := Some (water_uv_block d 0 (2 * tax) 0 768 768),
                m_aUvBounds := Some (water_bounds_block d 0 (2 * tax) 0 768 768)\<rparr>)]"
  using assms
  by (simp add: Let_def example_selected example_tex_dims write_block_full write_block_beyond
      or0_def)


lemma update_water_set_cong:
  assumes "animData s' = animData s" and "kindData s' = kindData s"
  shows "update_water_set e s' tax tay = update_water_set e s tax tay"
  by (intro ext) (simp only: update_water_set_def assms)

lemma flush_fast_meshes:
  assumes "\<not> needsRebuild s" and "tileAnimX s \<noteq> lastTileAnimX s"
  shows "meshes (flush e s) =
     foldl (update_water_set e s (tileAnimX s) (tileAnimY s)) (meshes s) (own_entries (rectData s))"
proof -
  let ?s' = "(snd (ensureArrayTexture s))\<lparr>lastTileAnimX := tileAnimX s, lastTileAnimY := tileAnimY s\<rparr>"
  have f: "flush e s = updateAnimUVs e ?s' (tileAnimX s) (tileAnimY s)"
    using assms by (simp add: flush_def Let_def)
  have c: "update_water_set e ?s' (tileAnimX s) (tileAnimY s) =
           update_water_set e s (tileAnimX s) (tileAnimY s)"
    by (rule update_water_set_cong) simp_all
  show ?thesis
    unfolding f meshes_updateAnimUVs c by simp
qed

lemma setAnimationOffset_fields [simp]:
  "needsRebuild (setAnimationOffset s x y) = needsRebuild s"
  "tileAnimX (setAnimationOffset s x y) = x" "tileAnimY (setAnimationOffset s x y) = y"
  "lastTileAnimX (setAnimationOffset s x y) = lastTileAnimX s"
  "lastTileAnimY (setAnimationOffset s x y) = lastTileAnimY s"
  "meshes (setAnimationOffset s x y) = meshes s"
  "rectData (setAnimationOffset s x y) = rectData s"
  "animData (setAnimationOffset s x y) = animData s"
  "kindData (setAnimationOffset s x y) = kindData s"
  "drawZData (setAnimationOffset s x y) = drawZData s"
  by (simp_all add: setAnimationOffset_def)

lemma update_water_set_example:
  assumes "or_nil (animData s) 0 = [2, 0, 2, 0]" and "or_nil (kindData s) 0 = [3, - 1]"
    and "count d = 2"
  shows "update_water_set water_env s tax tay ms (0, d) =
         update_water_meshes example_shader d [2, 0, 2, 0] [3, - 1] tax tay 0 1 1 ms"
  using assms example_water_rect
  by (simp add: update_water_set_def Let_def water_env_def upt2)

lemma fast_path_meshes:
  "\<exists>m3 m1. meshes (flush water_env (setAnimationOffset (flush water_env (water_at 0)) 1 0)) =
       [(WaterKey 0 False 3, m3), (WaterKey 0 False (- 1), m1)] \<and>
     m_uv m3 = Some (water_uv_block (rect_data_of water_pair 0) 0 2 0 768 768) \<and>
     m_aUvBounds m3 = Some (water_bounds_block (rect_data_of water_pair 0) 0 2 0 768 768) \<and>
     m_uv m1 = Some (water_uv_block (rect_data_of water_pair 0) 0 2 0 768 768) \<and>
     m_aUvBounds m1 = Some (water_bounds_block (rect_data_of water_pair 0) 0 2 0 768 768)"
proof -
  let ?d = "rect_data_of water_pair 0"
  let ?s0 = "flush water_env (water_at 0)"
  let ?sF = "setAnimationOffset ?s0 1 0"
  obtain m3 m1 where m: "meshes ?s0 = [(WaterKey 0 False 3, m3), (WaterKey 0 False (- 1), m1)]"
    "m_isWaterfall m3 = False" "m_a1Kinds m3 = [3]" "m_map m3 = Some example_tex"
    "m_uv m3 = Some (water_uv_block ?d 0 (2 * 0) 0 768 768)"
    "m_aUvBounds m3 = Some (water_bounds_block ?d 0 (2 * 0) 0 768 768)"
    "m_isWaterfall m1 = False" "m_a1Kinds m1 = []" "m_map m1 = Some example_tex"
    "m_uv m1 = Some (water_uv_block ?d 1 (2 * 0) 0 768 768)"
    "m_aUvBounds m1 = Some (water_bounds_block ?d 1 (2 * 0) 0 768 768)"
    using water_at_rebuilt [of 0] by blast
  have clean: "\<not> needsRebuild ?sF" "tileAnimX ?sF \<noteq> lastTileAnimX ?sF"
    using flush_clean [of water_env "water_at 0"] by (simp_all add: water_at_facts)
  have rd: "rectData ?sF = [(0, ?d)]"
    by (simp add: water_at_facts)
  have side: "or_nil (animData ?sF) 0 = [2, 0, 2, 0]" "or_nil (kindData ?sF) 0 = [3, - 1]"
    by (simp_all add: water_at_facts water_pair_facts)
  have cnt: "count ?d = 2"
    by (simp add: water_pair_facts)
  have "meshes (flush water_env ?sF) =
        update_water_meshes example_shader ?d [2, 0, 2, 0] [3, - 1] 1 0 0 1 1
          [(WaterKey 0 False 3, m3), (WaterKey 0 False (- 1), m1)]"
    unfolding flush_fast_meshes [OF clean] rd
    by (simp add: update_water_set_example [OF side cnt] m(1))
  also have "\<dots> =
         [(WaterKey 0 False 3,
             m3\<lparr>m_uv := Some (water_uv_block ?d 0 (2 * 1) 0 768 768),
                m_aUvBounds := Some (water_bounds_block ?d 0 (2 * 1) 0 768 768)\<rparr>),
          (WaterKey 0 False (- 1),
             m1\<lparr>m_uv := Some (water_uv_block ?d 0 (2 * 1) 0 768 768),
                m_aUvBounds := Some (water_bounds_block ?d 0 (2 * 1) 0 768 768)\<rparr>)]"
    using m(2,7)
    by (intro fast_path_example [OF m(5) _ m(6) _ m(10) _ m(11) _ m(4) m(9) m(3) m(8) _ _ cnt])
      simp_all
  finally show ?thesis
    by simp
qed


lemma water_pair_uv_blocks:
  "water_uv_block (rect_data_of water_pair 0) 0 2 0 768 768 =
     [1 / 384, 1, 25 / 384, 1, 1 / 384, 15 / 16, 25 / 384, 1, 25 / 384, 15 / 16, 1 / 384, 15 / 16]"
  "water_uv_block (rect_data_of water_pair 0) (Suc 0) 2 0 768 768 =
     [49 / 384, 1, 73 / 384, 1, 49 / 384, 15 / 16, 73 / 384, 1, 73 / 384, 15 / 16, 49 / 384,
      15 / 16]"
  using water_pair_uvs(1) [of 2] water_pair_uvs(2) [of 0] water_pair_uvs(3) [of 2]
    water_pair_uvs(4) [of 0]
  by (simp_all add: water_uv_block_def upt6)

text \<open>
  Claim C2, evaluated where the fast path and a full rebuild part ways. The layer
  \<open>water_pair\<close> holds two water rects of set 0, the first of kind 3 and the second
  without a kind; \<open>flush\<close> builds one water mesh for each. The call sequence
  \<open>setAnimationOffset(0, 0); flush(); setAnimationOffset(1, 0); flush()\<close> ends in the
  fast path; the sequence \<open>setAnimationOffset(1, 0); flush()\<close> is a full rebuild at
  the same phase over the same accumulated rects. In the mesh of the rects without a
  kind, the fast path leaves the UVs of the first rect (the rect of kind 3), while the
  rebuild gives the UVs of the second rect: the empty kind list of that mesh lets every
  kind through the filter of \<open>water_selected\<close>, and the store of the second rect falls
  beyond the end of the array.
\<close>

theorem fast_path_water_mismatch:
  "rectData (flush water_env (setAnimationOffset (flush water_env (water_at 0)) 1 0)) =
     rectData (flush water_env (water_at 1)) \<and>
   animData (flush water_env (setAnimationOffset (flush water_env (water_at 0)) 1 0)) =
     animData (flush water_env (water_at 1)) \<and>
   kindData (flush water_env (setAnimationOffset (flush water_env (water_at 0)) 1 0)) =
     kindData (flush water_env (water_at 1)) \<and>
   tileAnimX (flush water_env (setAnimationOffset (flush water_env (water_at 0)) 1 0)) = 1 \<and>
   tileAnimX (flush water_env (water_at 1)) = 1 \<and>
   map_option m_uv
     (map_of (meshes (flush water_env (setAnimationOffset (flush water_env (water_at 0)) 1 0)))
        (WaterKey 0 False (- 1))) =
     Some (Some [1 / 384, 1, 25 / 384, 1, 1 / 384, 15 / 16, 25 / 384, 1, 25 / 384, 15 / 16,
                 1 / 384, 15 / 16]) \<and>
   map_option m_uv (map_of (meshes (flush water_env (water_at 1))) (WaterKey 0 False (- 1))) =
     Some (Some [49 / 384, 1, 73 / 384, 1, 49 / 384, 15 / 16, 73 / 384, 1, 73 / 384, 15 / 16,
                 49 / 384, 15 / 16])"
proof -
  obtain a3 a1 where a:
    "meshes (flush water_env (setAnimationOffset (flush water_env (water_at 0)) 1 0)) =
       [(WaterKey 0 False 3, a3), (WaterKey 0 False (- 1), a1)]"
    "m_uv a1 = Some (water_uv_block (rect_data_of water_pair 0) 0 2 0 768 768)"
    using fast_path_meshes by blast
  obtain b3 b1 where b:
    "meshes (flush water_env (water_at 1)) =
       [(WaterKey 0 False 3, b3), (WaterKey 0 False (- 1), b1)]"
    "m_uv b1 = Some (water_uv_block (rect_data_of water_pair 0) 1 (2 * 1) 0 768 768)"
    using water_at_rebuilt [of 1] by blast
  show ?thesis
    using a(2) b(2) by (simp add: a(1) b(1) water_at_facts water_pair_uv_blocks)
qed


theorem fast_path_water_mismatch_witness:
  "map_option m_uv
     (map_of (meshes (flush water_env (setAnimationOffset (flush water_env (water_at 0)) 1 0)))
        (WaterKey 0 False (- 1))) \<noteq>
   map_option m_uv (map_of (meshes (flush water_env (water_at 1))) (WaterKey 0 False (- 1)))"
proof -
  note a = fast_path_water_mismatch [THEN conjunct2, THEN conjunct2, THEN conjunct2,
      THEN conjunct2, THEN conjunct2, THEN conjunct1]
  note b = fast_path_water_mismatch [THEN conjunct2, THEN conjunct2, THEN conjunct2,
      THEN conjunct2, THEN conjunct2, THEN conjunct2]
  show ?thesis
    unfolding a b by simp
qed

subsection \<open>Partition of the added rects by flush\<close>

lemma rect_data_of_clear:
  "count (rect_data_of (clear s) sn) = 0"
  by (simp add: rect_data_of_def clear_def map_of_map_snd split: option.splits)

lemma stored_clear [simp]:
  "stored_positions (clear s) sn = []" "stored_uvs (clear s) sn = []"
  "or_nil (animData (clear s)) sn = []" "or_nil (kindData (clear s)) sn = []"
  "or_nil (drawZData (clear s)) sn = []"
  by (simp_all add: stored_positions_def stored_uvs_def rect_data_of_clear)
    (simp_all add: clear_def or_nil_cleared)

lemma layer_inv_do_call: "layer_inv s \<Longrightarrow> layer_inv (do_call s c)"
  by (simp add: do_call_def layer_inv_addRect)

lemma layer_inv_add_all: "layer_inv s \<Longrightarrow> layer_inv (add_all s cs)"
  unfolding add_all_def
proof (induction cs arbitrary: s)
  case Nil
  then show ?case by simp
next
  case (Cons c cs)
  have "layer_inv (foldl do_call (do_call s c) cs)"
    using Cons.prems by (intro Cons.IH layer_inv_do_call)
  then show ?case by simp
qed

lemma add_all_snoc: "add_all s (cs @ [c]) = do_call (add_all s cs) c"
  by (simp add: add_all_def)

lemma stored_setDrawZ [simp]:
  "rect_data_of (setDrawZ s z) = rect_data_of s"
  "stored_positions (setDrawZ s z) = stored_positions s"
  "stored_uvs (setDrawZ s z) = stored_uvs s"
  by (intro ext, simp add: rect_data_of_def stored_positions_def stored_uvs_def)+

lemma do_call_same:
  assumes "layer_inv s" and "c_setNumber c = sn"
  shows "count (rect_data_of (do_call s c) sn) = Suc (count (rect_data_of s sn))"
    and "stored_positions (do_call s c) sn =
           stored_positions s sn @ quad_coords (c_x c) (c_y c) (c_w c) (c_h c)"
    and "stored_uvs (do_call s c) sn =
           stored_uvs s sn @ quad_coords (c_u c) (c_v c) (c_w c) (c_h c)"
    and "or_nil (animData (do_call s c)) sn = or_nil (animData s) sn @ call_anim c"
    and "or_nil (kindData (do_call s c)) sn = or_nil (kindData s) sn @ [call_kind c]"
    and "or_nil (drawZData (do_call s c)) sn = or_nil (drawZData s) sn @ [c_drawZ c]"
proof -
  have inv: "layer_inv (setDrawZ s (c_drawZ c))" using assms(1) by simp
  note st = stored_addRect [OF inv, of "c_setNumber c" "c_u c" "c_v c" "c_x c" "c_y c" "c_w c"
      "c_h c" "c_animX c" "c_animY c" "c_kind c"]
  show "count (rect_data_of (do_call s c) sn) = Suc (count (rect_data_of s sn))"
    using st(1) assms(2) by (simp add: do_call_def)
  show "stored_positions (do_call s c) sn =
           stored_positions s sn @ quad_coords (c_x c) (c_y c) (c_w c) (c_h c)"
    using st(2) assms(2) by (simp add: do_call_def)
  show "stored_uvs (do_call s c) sn =
           stored_uvs s sn @ quad_coords (c_u c) (c_v c) (c_w c) (c_h c)"
    using st(3) assms(2) by (simp add: do_call_def)
  show "or_nil (animData (do_call s c)) sn = or_nil (animData s) sn @ call_anim c"
    using assms(2) by (simp add: do_call_def addRect_side [OF inv] call_anim_def)
  show "or_nil (kindData (do_call s c)) sn = or_nil (kindData s) sn @ [call_kind c]"
    using assms(2) by (simp add: do_call_def addRect_side [OF inv] call_kind_def)
  show "or_nil (drawZData (do_call s c)) sn = or_nil (drawZData s) sn @ [c_drawZ c]"
    using assms(2) by (simp add: do_call_def addRect_side [OF inv])
qed

lemma do_call_other:
  assumes "layer_inv s" and "c_setNumber c \<noteq> sn"
  shows "rect_data_of (do_call s c) sn = rect_data_of s sn"
    and "stored_positions (do_call s c) sn = stored_positions s sn"
    and "stored_uvs (do_call s c) sn = stored_uvs s sn"
    and "or_nil (animData (do_call s c)) sn = or_nil (animData s) sn"
    and "or_nil (kindData (do_call s c)) sn = or_nil (kindData s) sn"
    and "or_nil (drawZData (do_call s c)) sn = or_nil (drawZData s) sn"
proof -
  have inv: "layer_inv (setDrawZ s (c_drawZ c))" using assms(1) by simp
  show rd: "rect_data_of (do_call s c) sn = rect_data_of s sn"
    using assms(2) by (simp add: do_call_def rect_data_of_addRect)
  show "stored_positions (do_call s c) sn = stored_positions s sn"
    "stored_uvs (do_call s c) sn = stored_uvs s sn"
    by (simp_all add: stored_positions_def stored_uvs_def rd)
  show "or_nil (animData (do_call s c)) sn = or_nil (animData s) sn"
    "or_nil (kindData (do_call s c)) sn = or_nil (kindData s) sn"
    "or_nil (drawZData (do_call s c)) sn = or_nil (drawZData s) sn"
    using assms(2) by (simp_all add: do_call_def addRect_side [OF inv])
qed

lemma accumulated:
  assumes "layer_inv s0"
  shows "count (rect_data_of (add_all (clear s0) cs) sn) = length (calls_to sn cs) \<and>
         stored_positions (add_all (clear s0) cs) sn =
           concat (map (\<lambda>c. quad_coords (c_x c) (c_y c) (c_w c) (c_h c)) (calls_to sn cs)) \<and>
         stored_uvs (add_all (clear s0) cs) sn =
           concat (map (\<lambda>c. quad_coords (c_u c) (c_v c) (c_w c) (c_h c)) (calls_to sn cs)) \<and>
         or_nil (animData (add_all (clear s0) cs)) sn = concat (map call_anim (calls_to sn cs)) \<and>
         or_nil (kindData (add_all (clear s0) cs)) sn = map call_kind (calls_to sn cs) \<and>
         or_nil (drawZData (add_all (clear s0) cs)) sn = map c_drawZ (calls_to sn cs)"
proof (induction cs rule: rev_induct)
  case Nil
  show ?case
    by (simp add: add_all_def calls_to_def rect_data_of_clear)
next
  case (snoc c cs)
  have inv: "layer_inv (add_all (clear s0) cs)"
    using assms by (intro layer_inv_add_all layer_inv_clear)
  show ?case
  proof (cases "c_setNumber c = sn")
    case True
    have ct: "calls_to sn (cs @ [c]) = calls_to sn cs @ [c]"
      using True by (simp add: calls_to_def)
    show ?thesis
      unfolding add_all_snoc ct
      using snoc.IH by (simp add: do_call_same [OF inv True])
  next
    case False
    have ct: "calls_to sn (cs @ [c]) = calls_to sn cs"
      using False by (simp add: calls_to_def)
    show ?thesis
      unfolding add_all_snoc ct
      using snoc.IH by (simp add: do_call_other [OF inv False])
  qed
qed


lemma entry_is_rect_data:
  assumes "distinct (map fst (rectData s))" and "(sn, d) \<in> set (rectData s)"
  shows "rect_data_of s sn = d"
  using assms by (simp add: rect_data_of_def)

lemma absent_count:
  assumes "sn \<notin> fst ` set (rectData s)"
  shows "count (rect_data_of s sn) = 0"
proof -
  have "map_of (rectData s) sn = None"
    using assms by (simp add: map_of_eq_None_iff)
  then show ?thesis by (simp add: rect_data_of_def)
qed

lemma set_set_rects:
  "set (set_rects e s (sn, d)) =
     {\<lparr>setNumber = sn, index = i, drawZ = or0 (or_nil (drawZData s) sn) i\<rparr> | i.
        sn \<noteq> - 1 \<and> i < count d \<and>
        \<not> is_water e sn (or_nil (animData s) sn) (or_nil (kindData s) sn) i}"
  by (auto simp: set_rects_def)

lemma set_flat_rects:
  assumes "distinct (map fst (rectData s))"
  shows "set (flat_rects e s) =
     {\<lparr>setNumber = sn, index = i, drawZ = or0 (or_nil (drawZData s) sn) i\<rparr> | sn i.
        sn \<noteq> - 1 \<and> i < count (rect_data_of s sn) \<and>
        \<not> is_water e sn (or_nil (animData s) sn) (or_nil (kindData s) sn) i}"
    (is "?L = ?R")
proof (rule set_eqI)
  fix r
  show "r \<in> ?L \<longleftrightarrow> r \<in> ?R"
  proof
    assume "r \<in> ?L"
    then obtain sn d where p: "(sn, d) \<in> set (rectData s)" "r \<in> set (set_rects e s (sn, d))"
      by (auto simp: classify_allRects)
    have d: "rect_data_of s sn = d"
      by (rule entry_is_rect_data [OF assms p(1)])
    show "r \<in> ?R"
      using p(2) unfolding set_set_rects d [symmetric] by blast
  next
    assume "r \<in> ?R"
    then obtain sn i where r: "r = \<lparr>setNumber = sn, index = i,
          drawZ = or0 (or_nil (drawZData s) sn) i\<rparr>"
      "sn \<noteq> - 1" "i < count (rect_data_of s sn)"
      "\<not> is_water e sn (or_nil (animData s) sn) (or_nil (kindData s) sn) i"
      by blast
    have "sn \<in> fst ` set (rectData s)"
      using r(3) absent_count [of sn s] by fastforce
    then obtain d where p: "(sn, d) \<in> set (rectData s)" by auto
    have d: "rect_data_of s sn = d"
      by (rule entry_is_rect_data [OF assms p])
    have "r \<in> set (set_rects e s (sn, d))"
      unfolding set_set_rects using r d by blast
    then show "r \<in> ?L"
      using p by (auto simp: classify_allRects)
  qed
qed

lemma distinct_own_entries:
  assumes "distinct (map fst al)"
  shows "distinct (map fst (own_entries al))"
proof -
  let ?A = "sort_key fst (filter (\<lambda>p. is_array_index (fst p)) al)"
  let ?B = "filter (\<lambda>p. \<not> is_array_index (fst p)) al"
  have inj: "inj_on fst (set al)" and dal: "distinct al"
    using assms by (simp_all add: distinct_map)
  have "inj_on fst (set ?A)"
    using inj by (rule inj_on_subset) auto
  moreover have "distinct ?A" using dal by simp
  ultimately have a: "distinct (map fst ?A)" by (simp add: distinct_map)
  have b: "distinct (map fst ?B)"
    using assms by (rule distinct_map_filter)
  have "set (map fst ?A) \<inter> set (map fst ?B) = {}"
    by auto
  then show ?thesis
    using a b unfolding own_entries_def by simp
qed

lemma distinct_set_rects: "distinct (set_rects e s p)"
  by (simp add: set_rects_def distinct_map inj_on_def)

lemma set_rects_setNumber: "r \<in> set (set_rects e s p) \<Longrightarrow> setNumber r = fst p"
  by (auto simp: set_rects_def split: if_splits)

lemma distinct_concat_set_rects:
  "distinct (map fst ps) \<Longrightarrow> distinct (concat (map (set_rects e s) ps))"
proof (induction ps)
  case Nil
  show ?case by simp
next
  case (Cons p ps)
  have "set (set_rects e s p) \<inter> set (concat (map (set_rects e s) ps)) = {}"
  proof (rule ccontr)
    assume "set (set_rects e s p) \<inter> set (concat (map (set_rects e s) ps)) \<noteq> {}"
    then obtain r q where "r \<in> set (set_rects e s p)" "q \<in> set ps" "r \<in> set (set_rects e s q)"
      by auto
    then have "fst p = fst q" "q \<in> set ps"
      using set_rects_setNumber by metis+
    then show False using Cons.prems by force
  qed
  then show ?case
    using Cons by (simp add: distinct_set_rects)
qed

lemma distinct_flat_rects:
  "distinct (map fst (rectData s)) \<Longrightarrow> distinct (flat_rects e s)"
  by (simp add: classify_allRects distinct_concat_set_rects distinct_own_entries)


lemma concat_map_nth:
  assumes "\<And>x. length (f x) = B" and "i < length xs" and "k < B"
  shows "concat (map f xs) ! (i * B + k) = f (xs ! i) ! k"
  using assms(2)
proof (induction xs arbitrary: i)
  case Nil
  then show ?case by simp
next
  case (Cons x xs)
  show ?case
  proof (cases i)
    case 0
    then show ?thesis using assms(1) [of x] assms(3) by (simp add: nth_append)
  next
    case (Suc j)
    then have j: "j < length xs" using Cons.prems by simp
    have "concat (map f (x # xs)) ! (i * B + k) = concat (map f xs) ! (j * B + k)"
      using Suc assms(1) [of x] by (simp add: nth_append)
    also have "\<dots> = f (xs ! j) ! k" by (rule Cons.IH [OF j])
    finally show ?thesis using Suc by simp
  qed
qed

lemma length_concat_blocks:
  assumes "\<And>x. length (f x) = B"
  shows "length (concat (map f xs)) = length xs * B"
  using assms by (induction xs) simp_all

lemma length_call_anim [simp]: "length (call_anim c) = 2"
  by (simp add: call_anim_def)

lemma length_quad_coords [simp]: "length (quad_coords x y w h) = 12"
  by (simp add: quad_coords_def)

lemma is_water_call:
  assumes "i < length cs" and "c_setNumber (cs ! i) = sn"
  shows "is_water e sn (concat (map call_anim cs)) (map call_kind cs) i = water_call e (cs ! i)"
proof -
  have len: "length (concat (map call_anim cs)) = length cs * 2"
    by (rule length_concat_blocks) simp
  have a0: "concat (map call_anim cs) ! (i * 2 + 0) = call_anim (cs ! i) ! 0"
    by (rule concat_map_nth) (simp_all add: assms)
  have a1: "concat (map call_anim cs) ! (i * 2 + 1) = call_anim (cs ! i) ! 1"
    by (rule concat_map_nth) (simp_all add: assms)
  have x: "or0 (concat (map call_anim cs)) (i * 2) = or0 (call_anim (cs ! i)) (0 * 2)"
    using a0 assms(1) by (simp add: or0_def len)
  have y: "or0 (concat (map call_anim cs)) (i * 2 + 1) = or0 (call_anim (cs ! i)) (0 * 2 + 1)"
    using a1 assms(1) by (simp add: or0_def len)
  have k: "kind_at (map call_kind cs) i = kind_at [call_kind (cs ! i)] 0"
    using assms(1) by (simp add: kind_at_def)
  have "water_rect ws (concat (map call_anim cs)) (map call_kind cs) i =
        water_rect ws (call_anim (cs ! i)) [call_kind (cs ! i)] 0" for ws
    unfolding water_rect_def Let_def x y k ..
  then show ?thesis
    unfolding is_water_def water_call_def assms(2) by (simp split: option.splits)
qed

lemma pos_block_call:
  assumes "stored_positions s sn =
             concat (map (\<lambda>c. quad_coords (c_x c) (c_y c) (c_w c) (c_h c)) cs)"
    and "count (rect_data_of s sn) = length cs" and "i < length cs"
  shows "pos_block (rect_data_of s sn) i z = call_vertices (cs ! i) z"
proof -
  let ?q = "\<lambda>c. quad_coords (c_x c) (c_y c) (c_w c) (c_h c)"
  have p: "positions (rect_data_of s sn) ! (i * 12 + k) = ?q (cs ! i) ! k" if "k < 12" for k
  proof -
    have "i * 12 + k < 12 * count (rect_data_of s sn)"
      using that assms(2,3) by simp
    then have "positions (rect_data_of s sn) ! (i * 12 + k) = stored_positions s sn ! (i * 12 + k)"
      by (rule stored_nth)
    also have "\<dots> = ?q (cs ! i) ! k"
      unfolding assms(1) by (rule concat_map_nth) (simp_all add: assms(3) that)
    finally show ?thesis .
  qed
  have "pos_block (rect_data_of s sn) i z =
        concat (map (\<lambda>j. [?q (cs ! i) ! (j * 2), ?q (cs ! i) ! (j * 2 + 1), z]) [0..<6])"
    unfolding pos_block_def
  proof (rule arg_cong [where f = concat], rule map_cong [OF refl])
    fix j :: nat
    assume "j \<in> set [0..<6]"
    then have j: "j * 2 < 12" "j * 2 + 1 < 12" by simp_all
    show "[positions (rect_data_of s sn) ! (i * 12 + j * 2),
           positions (rect_data_of s sn) ! (i * 12 + j * 2 + 1), z] =
          [?q (cs ! i) ! (j * 2), ?q (cs ! i) ! (j * 2 + 1), z]"
      using p [OF j(1)] p [OF j(2)] by (simp add: add.assoc)
  qed
  also have "\<dots> = call_vertices (cs ! i) z"
    by (simp add: upt6 quad_coords_def call_vertices_def)
  finally show ?thesis .
qed


lemma needsRebuild_add_all: "needsRebuild (add_all (clear s0) cs)"
proof (cases cs rule: rev_cases)
  case Nil
  then show ?thesis by (simp add: add_all_def clear_def)
next
  case (snoc cs' c)
  then show ?thesis by (simp add: add_all_snoc do_call_def)
qed

lemma calls_to_nth:
  assumes "i < length (calls_to sn cs)"
  shows "c_setNumber (calls_to sn cs ! i) = sn"
proof -
  have "calls_to sn cs ! i \<in> set (calls_to sn cs)"
    using assms by (rule nth_mem)
  then show ?thesis by (simp add: calls_to_def)
qed

lemma map_nth_upt: "map (\<lambda>i. g (xs ! i)) [0..<length xs] = map g xs"
  by (rule nth_equalityI) simp_all

lemma flat_rects_calls:
  assumes "layer_inv s0"
  shows "set (flat_rects e (add_all (clear s0) cs)) =
     {\<lparr>setNumber = sn, index = i, drawZ = c_drawZ (calls_to sn cs ! i)\<rparr> | sn i.
        sn \<noteq> - 1 \<and> i < length (calls_to sn cs) \<and> \<not> water_call e (calls_to sn cs ! i)}"
proof -
  let ?s = "add_all (clear s0) cs"
  have "layer_inv ?s"
    using assms by (intro layer_inv_add_all layer_inv_clear)
  then have d: "distinct (map fst (rectData ?s))"
    by (simp add: layer_inv_def)
  note acc = accumulated [OF assms, of cs]
  have c: "count (rect_data_of ?s sn) = length (calls_to sn cs)" for sn
    using acc [of sn] by simp
  have w: "is_water e sn (or_nil (animData ?s) sn) (or_nil (kindData ?s) sn) i =
           water_call e (calls_to sn cs ! i)" if "i < length (calls_to sn cs)" for sn i
  proof -
    have a: "or_nil (animData ?s) sn = concat (map call_anim (calls_to sn cs))"
      and k: "or_nil (kindData ?s) sn = map call_kind (calls_to sn cs)"
      using acc [of sn] by simp_all
    show ?thesis
      unfolding a k by (rule is_water_call [OF that calls_to_nth [OF that]])
  qed
  have z: "or0 (or_nil (drawZData ?s) sn) i = c_drawZ (calls_to sn cs ! i)"
    if "i < length (calls_to sn cs)" for sn i
  proof -
    have "or_nil (drawZData ?s) sn = map c_drawZ (calls_to sn cs)"
      using acc [of sn] by simp
    then show ?thesis using that by (simp add: or0_def)
  qed
  show ?thesis
    unfolding set_flat_rects [OF d] c
  proof (rule set_eqI, rule iffI)
    fix r
    assume "r \<in> {\<lparr>setNumber = sn, index = i, drawZ = or0 (or_nil (drawZData ?s) sn) i\<rparr> | sn i.
        sn \<noteq> - 1 \<and> i < length (calls_to sn cs) \<and>
        \<not> is_water e sn (or_nil (animData ?s) sn) (or_nil (kindData ?s) sn) i}"
    then obtain sn i where r: "r = \<lparr>setNumber = sn, index = i,
          drawZ = or0 (or_nil (drawZData ?s) sn) i\<rparr>" "sn \<noteq> - 1" "i < length (calls_to sn cs)"
        "\<not> is_water e sn (or_nil (animData ?s) sn) (or_nil (kindData ?s) sn) i"
      by blast
    have "r = \<lparr>setNumber = sn, index = i, drawZ = c_drawZ (calls_to sn cs ! i)\<rparr>"
      using r(1) z [OF r(3)] by simp
    moreover have "\<not> water_call e (calls_to sn cs ! i)"
      using r(4) w [OF r(3)] by simp
    ultimately show "r \<in> {\<lparr>setNumber = sn, index = i, drawZ = c_drawZ (calls_to sn cs ! i)\<rparr> | sn i.
        sn \<noteq> - 1 \<and> i < length (calls_to sn cs) \<and> \<not> water_call e (calls_to sn cs ! i)}"
      using r(2,3) by blast
  next
    fix r
    assume "r \<in> {\<lparr>setNumber = sn, index = i, drawZ = c_drawZ (calls_to sn cs ! i)\<rparr> | sn i.
        sn \<noteq> - 1 \<and> i < length (calls_to sn cs) \<and> \<not> water_call e (calls_to sn cs ! i)}"
    then obtain sn i where r: "r = \<lparr>setNumber = sn, index = i,
          drawZ = c_drawZ (calls_to sn cs ! i)\<rparr>" "sn \<noteq> - 1" "i < length (calls_to sn cs)"
        "\<not> water_call e (calls_to sn cs ! i)"
      by blast
    have "r = \<lparr>setNumber = sn, index = i, drawZ = or0 (or_nil (drawZData ?s) sn) i\<rparr>"
      using r(1) z [OF r(3)] by simp
    moreover have "\<not> is_water e sn (or_nil (animData ?s) sn) (or_nil (kindData ?s) sn) i"
      using r(4) w [OF r(3)] by simp
    ultimately show "r \<in> {\<lparr>setNumber = sn, index = i,
          drawZ = or0 (or_nil (drawZData ?s) sn) i\<rparr> | sn i.
        sn \<noteq> - 1 \<and> i < length (calls_to sn cs) \<and>
        \<not> is_water e sn (or_nil (animData ?s) sn) (or_nil (kindData ?s) sn) i}"
      using r(2,3) by blast
  qed
qed

lemma unified_pos_calls:
  assumes "layer_inv s0" and "r \<in> set (flat_rects e (add_all (clear s0) cs))"
  shows "unified_pos_of e (add_all (clear s0) cs) r =
         call_vertices (calls_to (setNumber r) cs ! index r)
           (zOffset (\<not> mode3d e \<and> tileLayerElevation e) (drawZ r))"
proof -
  let ?s = "add_all (clear s0) cs"
  obtain sn i where r: "r = \<lparr>setNumber = sn, index = i,
        drawZ = c_drawZ (calls_to sn cs ! i)\<rparr>" "i < length (calls_to sn cs)"
    using assms(2) unfolding flat_rects_calls [OF assms(1)] by blast
  note acc = accumulated [OF assms(1), of cs sn]
  have z: "or0 (or_nil (drawZData ?s) sn) i = c_drawZ (calls_to sn cs ! i)"
    using acc r(2) by (simp add: or0_def)
  have p: "pos_block (rect_data_of ?s sn) i z' = call_vertices (calls_to sn cs ! i) z'" for z'
    by (rule pos_block_call [OF acc [THEN conjunct2, THEN conjunct1] acc [THEN conjunct1] r(2)])
  show ?thesis
    unfolding unified_pos_of_def Let_def r(1) by (simp add: z p)
qed

lemma classify_set_meshes_keep:
  "fst p \<noteq> - 1 \<Longrightarrow> cl_meshes (classify_set e s st p) = cl_meshes st"
  by (simp add: classify_set_def Let_def)

lemma buildShadowMesh_shadow:
  "\<exists>m. map_of (buildShadowMesh e s d ms) ShadowKey = Some m \<and> m_visible m \<and>
       m_position m = Some (shadow_posArray e s d)"
  by (simp add: buildShadowMesh_def Let_def update_conv' new_mesh_def split: option.splits)

lemma foldl_classify_shadow:
  assumes "distinct (map fst ps)" and "(- 1, d) \<in> set ps" and "count d \<noteq> 0"
  shows "\<exists>m. map_of (cl_meshes (foldl (classify_set e s) st ps)) ShadowKey = Some m \<and>
           m_visible m \<and> m_position m = Some (shadow_posArray e s d)"
  using assms(1,2)
proof (induction ps rule: rev_induct)
  case Nil
  then show ?case by simp
next
  case (snoc p ps)
  show ?case
  proof (cases "p = (- 1, d)")
    case True
    have "cl_meshes (classify_set e s (foldl (classify_set e s) st ps) p) =
          buildShadowMesh e s d (cl_meshes (foldl (classify_set e s) st ps))"
      using True assms(3) by (simp add: classify_set_def Let_def)
    then show ?thesis
      using buildShadowMesh_shadow [of e s d "cl_meshes (foldl (classify_set e s) st ps)"]
      by simp
  next
    case False
    then have m: "(- 1, d) \<in> set ps" using snoc.prems(2) by simp
    have "fst p \<notin> fst ` set ps" using snoc.prems(1) by simp
    then have "fst p \<noteq> - 1" using m by force
    then have "cl_meshes (classify_set e s (foldl (classify_set e s) st ps) p) =
          cl_meshes (foldl (classify_set e s) st ps)"
      by (rule classify_set_meshes_keep)
    moreover have "\<exists>m. map_of (cl_meshes (foldl (classify_set e s) st ps)) ShadowKey = Some m \<and>
           m_visible m \<and> m_position m = Some (shadow_posArray e s d)"
      using snoc.prems(1) m by (intro snoc.IH) simp_all
    ultimately show ?thesis by simp
  qed
qed

lemma shadow_flush:
  assumes "needsRebuild s" and "distinct (map fst (rectData s))"
    and "count (rect_data_of s (- 1)) \<noteq> 0"
  shows "\<exists>m. map_of (meshes (flush e s)) ShadowKey = Some m \<and> m_visible m \<and>
           m_position m = Some (shadow_posArray e s (rect_data_of s (- 1)))"
proof -
  let ?s1 = "start_rebuild (snd (ensureArrayTexture s))"
  have "- 1 \<in> fst ` set (rectData s)"
    using assms(3) absent_count [of "- 1" s] by fastforce
  then obtain d where p: "(- 1, d) \<in> set (rectData s)" by auto
  have d: "rect_data_of s (- 1) = d"
    by (rule entry_is_rect_data [OF assms(2) p])
  have "\<exists>m. map_of (cl_meshes (classify e ?s1)) ShadowKey = Some m \<and> m_visible m \<and>
           m_position m = Some (shadow_posArray e ?s1 d)"
    unfolding classify_def
    using assms(2,3) p d
    by (intro foldl_classify_shadow) (simp_all add: distinct_own_entries)
  moreover have "shadow_posArray e ?s1 d = shadow_posArray e s d"
    by (simp add: shadow_posArray_def)
  moreover have "map_of (meshes (flush e s)) ShadowKey = map_of (cl_meshes (classify e ?s1)) ShadowKey"
    using foldl_build_water_other [of _ ShadowKey e ?s1 "tileAnimX (snd (ensureArrayTexture s))"
        "tileAnimY (snd (ensureArrayTexture s))"
        "(bitmaps (snd (ensureArrayTexture s)), cl_meshes (classify e ?s1))"]
    unfolding flush_rebuilds [OF assms(1)] rebuild_fields
    by simp
  ultimately show ?thesis by (simp add: d)
qed

lemma shadow_posArray_calls:
  assumes "stored_positions s (- 1) =
             concat (map (\<lambda>c. quad_coords (c_x c) (c_y c) (c_w c) (c_h c)) cs)"
    and "count (rect_data_of s (- 1)) = length cs"
    and "or_nil (drawZData s) (- 1) = map c_drawZ cs"
  shows "shadow_posArray e s (rect_data_of s (- 1)) =
         concat (map (\<lambda>c. call_vertices c (zOffset (\<not> mode3d e \<and> tileLayerElevation e) (c_drawZ c))) cs)"
proof -
  let ?el = "\<not> mode3d e \<and> tileLayerElevation e"
  let ?d = "rect_data_of s (- 1)"
  let ?f = "\<lambda>i. pos_block ?d i (zOffset ?el (or0 (map c_drawZ cs) i))"
  have "shadow_posArray e s ?d =
        fill_blocks (replicate (length cs * 6 * 3) 0) 18 0 (map ?f [0..<length cs])"
    by (simp add: shadow_posArray_def Let_def assms(2,3))
  also have "\<dots> = concat (map ?f [0..<length cs])"
    by (rule fill_map_fresh) simp_all
  also have "map ?f [0..<length cs] =
             map (\<lambda>i. call_vertices (cs ! i) (zOffset ?el (c_drawZ (cs ! i)))) [0..<length cs]"
  proof (rule map_cong [OF refl])
    fix i
    assume "i \<in> set [0..<length cs]"
    then have i: "i < length cs" by simp
    have "or0 (map c_drawZ cs) i = c_drawZ (cs ! i)"
      using i by (simp add: or0_def)
    then show "?f i = call_vertices (cs ! i) (zOffset ?el (c_drawZ (cs ! i)))"
      using pos_block_call [OF assms(1,2) i] by simp
  qed
  also have "\<dots> = map (\<lambda>c. call_vertices c (zOffset ?el (c_drawZ c))) cs"
    by (rule map_nth_upt)
  finally show ?thesis .
qed



lemma shown_simps [simp]:
  "shown None = None"
  "shown (map_option (\<lambda>m. m\<lparr>m_visible := False\<rparr>) mo) = None"
  by (cases mo; simp add: shown_def)+

lemma quads_simps [simp]:
  "quads [] = None"
  "qs \<noteq> [] \<Longrightarrow> quads qs = Some (concat qs)"
  by (simp_all add: quads_def)

lemma sort_by_drawZ_Nil [simp]: "sort_by_drawZ xs = [] \<longleftrightarrow> xs = []"
proof -
  have "length (sort_by_drawZ xs) = length xs"
    by (simp add: sort_by_drawZ_def)
  then show ?thesis by (metis length_0_conv)
qed

lemma shown_unified:
  assumes "needsRebuild s"
  shows "shown (unifiedMesh (flush e s)) =
         quads (map (unified_pos_of e s) (sort_by_drawZ (flat_rects e s)))"
proof (cases "flat_rects e s = []")
  case True
  have "unifiedMesh (flush e s) =
        buildUnifiedMesh e (start_rebuild (snd (ensureArrayTexture s))) [] (tileAnimX s) (tileAnimY s)"
    by (simp add: flush_rebuilds [OF assms] rebuild_fields True sort_by_drawZ_def)
  then have "shown (unifiedMesh (flush e s)) = None"
    by (simp add: buildUnifiedMesh_def shown_def split: option.splits)
  then show ?thesis by (simp add: True sort_by_drawZ_def)
next
  case False
  then have ne: "map (unified_pos_of e s) (sort_by_drawZ (flat_rects e s)) \<noteq> []"
    by simp
  obtain m where m: "unifiedMesh (flush e s) = Some m" "m_visible m"
      "m_position m = Some (concat (map (unified_pos_of e s) (sort_by_drawZ (flat_rects e s))))"
    using unifiedMesh_flush [OF assms False] by blast
  show ?thesis
    using m by (simp add: shown_def quads_simps(2) [OF ne])
qed

lemma foldl_classify_no_shadow:
  assumes "\<And>d. (- 1, d) \<in> set ps \<Longrightarrow> count d = 0"
  shows "cl_meshes (foldl (classify_set e s) st ps) = cl_meshes st"
  using assms
proof (induction ps rule: rev_induct)
  case Nil
  show ?case by simp
next
  case (snoc p ps)
  have ih: "cl_meshes (foldl (classify_set e s) st ps) = cl_meshes st"
    using snoc.prems by (intro snoc.IH) simp
  have "cl_meshes (classify_set e s (foldl (classify_set e s) st ps) p) =
        cl_meshes (foldl (classify_set e s) st ps)"
  proof (cases "fst p = - 1")
    case True
    then have "p = (- 1, snd p)" by (metis prod.collapse)
    then have "count (snd p) = 0" using snoc.prems [of "snd p"] by simp
    then show ?thesis by (simp add: classify_set_def)
  next
    case False
    then show ?thesis by (rule classify_set_meshes_keep)
  qed
  then show ?case using ih by simp
qed

lemma shown_shadow:
  assumes "needsRebuild s" and "distinct (map fst (rectData s))"
  shows "shown (map_of (meshes (flush e s)) ShadowKey) =
         (if count (rect_data_of s (- 1)) = 0 then None
          else Some (shadow_posArray e s (rect_data_of s (- 1))))"
proof (cases "count (rect_data_of s (- 1)) = 0")
  case False
  then show ?thesis
    using shadow_flush [OF assms False, of e] by (auto simp: shown_def)
next
  case True
  let ?s1 = "start_rebuild (snd (ensureArrayTexture s))"
  have z: "count d = 0" if "(- 1, d) \<in> set (own_entries (rectData ?s1))" for d
  proof -
    have "(- 1, d) \<in> set (rectData s)" using that by simp
    then have "rect_data_of s (- 1) = d" by (rule entry_is_rect_data [OF assms(2)])
    then show ?thesis using True by simp
  qed
  have "cl_meshes (classify e ?s1) =
        cl_meshes \<lparr>cl_allRects = [], cl_hasWaterBySet = [], cl_meshes = meshes ?s1\<rparr>"
    unfolding classify_def by (rule foldl_classify_no_shadow) (rule z)
  then have "cl_meshes (classify e ?s1) = meshes ?s1" by simp
  moreover have "map_of (meshes (flush e s)) ShadowKey = map_of (cl_meshes (classify e ?s1)) ShadowKey"
    using foldl_build_water_other [of _ ShadowKey e ?s1 "tileAnimX (snd (ensureArrayTexture s))"
        "tileAnimY (snd (ensureArrayTexture s))"
        "(bitmaps (snd (ensureArrayTexture s)), cl_meshes (classify e ?s1))"]
    unfolding flush_rebuilds [OF assms(1)] rebuild_fields
    by simp
  ultimately show ?thesis
    using True by (simp add: map_of_hidden)
qed



lemma water_groups_Suc:
  "water_groups ws a k (Suc n) = group_rect ws a k (water_groups ws a k n) n"
  by (simp add: water_groups_def)

lemma distinct_group_rect:
  "distinct (map fst gs) \<Longrightarrow> distinct (map fst (group_rect ws a k gs ci))"
  by (simp add: group_rect_def Let_def distinct_update)

lemma distinct_water_groups: "distinct (map fst (water_groups ws a k n))"
proof (induction n)
  case 0
  show ?case by (simp add: water_groups_def)
next
  case (Suc n)
  then show ?case by (simp add: water_groups_Suc distinct_group_rect)
qed

lemma group_rect_indices:
  assumes "map_option g_indices (map_of gs (fl, kd)) = (if old = [] then None else Some old)"
  shows "map_option g_indices (map_of (group_rect ws a k gs ci) (fl, kd)) =
         (if group_member ws a k fl kd ci then Some (old @ [ci])
          else if old = [] then None else Some old)"
proof (cases "water_rect ws a k ci")
  case False
  then have "group_rect ws a k gs ci = gs"
    by (auto simp: group_rect_def water_rect_def Let_def)
  then show ?thesis using False assms by (simp add: group_member_def)
next
  case True
  define isWF where "isWF = isWaterfallRect ws (or0 a (ci * 2)) (or0 a (ci * 2 + 1))"
  define kind where "kind = kind_at k ci"
  define g0 where "g0 = (case map_of gs (isWF, kind) of
               None \<Rightarrow> \<lparr>g_indices = [], g_isWaterfall = isWF,
                         g_kinds = (if kind \<ge> 0 then [kind] else [])\<rparr>
             | Some g \<Rightarrow> g)"
  define g2 where "g2 = (if kind \<ge> 0 \<and> kind \<notin> set (g_kinds (g0\<lparr>g_indices := g_indices g0 @ [ci]\<rparr>))
             then g0\<lparr>g_indices := g_indices g0 @ [ci]\<rparr>
                    \<lparr>g_kinds := g_kinds (g0\<lparr>g_indices := g_indices g0 @ [ci]\<rparr>) @ [kind]\<rparr>
             else g0\<lparr>g_indices := g_indices g0 @ [ci]\<rparr>)"
  have w: "isWaterRect ws (or0 a (ci * 2)) (or0 a (ci * 2 + 1))"
    and en: "\<not> (kind_at k ci \<ge> 0 \<and> \<not> isKindEnabled ws (kind_at k ci))"
    using True unfolding water_rect_def Let_def by auto
  have gr: "group_rect ws a k gs ci = AList.update (isWF, kind) g2 gs"
    unfolding group_rect_def Let_def isWF_def kind_def g0_def g2_def
    by (simp only: w en simp_thms if_False)
  have i2: "g_indices g2 = g_indices g0 @ [ci]"
    by (simp add: g2_def)
  show ?thesis
  proof (cases "(isWF, kind) = (fl, kd)")
    case same: True
    have m: "group_member ws a k fl kd ci"
      using True same unfolding group_member_def isWF_def kind_def by simp
    have "g_indices g0 = old"
      using assms same unfolding g0_def by (auto split: option.splits if_splits)
    then have "g_indices g2 = old @ [ci]" using i2 by simp
    moreover have "map_of (group_rect ws a k gs ci) (fl, kd) = Some g2"
      unfolding gr using same by (simp add: update_conv')
    ultimately show ?thesis using m by simp
  next
    case other: False
    have m: "\<not> group_member ws a k fl kd ci"
      using other unfolding group_member_def isWF_def kind_def by auto
    have "map_of (group_rect ws a k gs ci) (fl, kd) = map_of gs (fl, kd)"
      unfolding gr using other by (auto simp: update_conv')
    then show ?thesis using m assms by simp
  qed
qed

lemma water_groups_indices:
  "map_option g_indices (map_of (water_groups ws a k n) (fl, kd)) =
     (if filter (group_member ws a k fl kd) [0..<n] = [] then None
      else Some (filter (group_member ws a k fl kd) [0..<n]))"
proof (induction n)
  case 0
  show ?case by (simp add: water_groups_def)
next
  case (Suc n)
  show ?case
    unfolding water_groups_Suc group_rect_indices [OF Suc.IH]
    by simp
qed

lemma shown_buildWaterTypeMesh:
  "shown (map_of (buildWaterTypeMesh e s sn meshKey indices data animOffsets tex texW texH tax tay
              isWF a1Kinds ms) meshKey) =
     Some (concat (map (\<lambda>i. pos_block data i
              (zOffset (tileLayerElevation e) (or0 (or_nil (drawZData s) sn) i))) indices))"
  using buildWaterTypeMesh_arrays [of e s sn meshKey indices data animOffsets tex texW texH tax tay
      isWF a1Kinds ms]
  by (auto simp: shown_def)

lemma foldl_groups_shown:
  fixes gs :: "((bool \<times> int) \<times> kind_group) list"
  assumes "distinct (map fst gs)"
    and F: "\<And>ms gk g. F ms (gk, g) =
              (if g_indices g = [] then ms
               else buildWaterTypeMesh e s sn (WaterKey sn (fst gk) (snd gk)) (g_indices g) data
                      animOffsets tex texW texH tax tay (g_isWaterfall g) (g_kinds g) ms)"
  shows "shown (map_of (foldl F ms gs) (WaterKey sn fl kd)) =
         (case map_of gs (fl, kd) of
            None \<Rightarrow> shown (map_of ms (WaterKey sn fl kd))
          | Some g \<Rightarrow>
              if g_indices g = [] then shown (map_of ms (WaterKey sn fl kd))
              else Some (concat (map (\<lambda>i. pos_block data i
                     (zOffset (tileLayerElevation e) (or0 (or_nil (drawZData s) sn) i)))
                     (g_indices g))))"
  using assms(1)
proof (induction gs arbitrary: ms)
  case Nil
  show ?case by simp
next
  case (Cons p gs)
  define pos where "pos = (\<lambda>g::kind_group. concat (map (\<lambda>i. pos_block data i
                     (zOffset (tileLayerElevation e) (or0 (or_nil (drawZData s) sn) i)))
                     (g_indices g)))"
  define key where "key = WaterKey sn fl kd"
  obtain gk g where p: "p = (gk, g)" by (cases p)
  have d: "distinct (map fst gs)" and nin: "gk \<notin> fst ` set gs"
    using Cons.prems p by simp_all
  have ih: "shown (map_of (foldl F (F ms p) gs) key) =
         (case map_of gs (fl, kd) of
            None \<Rightarrow> shown (map_of (F ms p) key)
          | Some g \<Rightarrow>
              if g_indices g = [] then shown (map_of (F ms p) key) else Some (pos g))"
    unfolding key_def pos_def by (rule Cons.IH [OF d])
  have goal: "shown (map_of (foldl F (F ms p) gs) key) =
         (case map_of (p # gs) (fl, kd) of
            None \<Rightarrow> shown (map_of ms key)
          | Some g \<Rightarrow> if g_indices g = [] then shown (map_of ms key) else Some (pos g))"
  proof (cases "gk = (fl, kd)")
    case True
    then have "map_of gs (fl, kd) = None"
      using nin by (simp add: map_of_eq_None_iff)
    then have a: "shown (map_of (foldl F (F ms p) gs) key) = shown (map_of (F ms p) key)"
      using ih by simp
    have b: "shown (map_of (F ms p) key) =
        (if g_indices g = [] then shown (map_of ms key) else Some (pos g))"
    proof (cases "g_indices g = []")
      case e: True
      then show ?thesis by (simp add: p F)
    next
      case ne: False
      have "F ms p = buildWaterTypeMesh e s sn key (g_indices g) data
                      animOffsets tex texW texH tax tay (g_isWaterfall g) (g_kinds g) ms"
        using ne True by (simp add: p F key_def)
      then show ?thesis
        using ne by (simp only: shown_buildWaterTypeMesh pos_def if_False)
    qed
    have c: "map_of (p # gs) (fl, kd) = Some g"
      using True p by simp
    show ?thesis
      unfolding a b c by simp
  next
    case False
    then have k: "key \<noteq> WaterKey sn (fst gk) (snd gk)"
      unfolding key_def by (cases gk) auto
    have e1: "map_of (F ms p) key = map_of ms key"
    proof (cases "g_indices g = []")
      case True
      then show ?thesis by (simp add: p F)
    next
      case ne: False
      have "F ms p = buildWaterTypeMesh e s sn (WaterKey sn (fst gk) (snd gk)) (g_indices g) data
                      animOffsets tex texW texH tax tay (g_isWaterfall g) (g_kinds g) ms"
        using ne by (simp add: p F)
      then show ?thesis
        using buildWaterTypeMesh_other [OF k] by simp
    qed
    have e2: "map_of (p # gs) (fl, kd) = map_of gs (fl, kd)"
      using False p by auto
    show ?thesis unfolding ih e1 e2 ..
  qed
  have "foldl F ms (p # gs) = foldl F (F ms p) gs" by simp
  then show ?case
    using goal unfolding key_def pos_def by simp
qed

lemma shown_buildWaterMesh:
  "shown (map_of (buildWaterMesh e ws s sn data animOffsets tex texW texH tax tay ms)
            (WaterKey sn fl kd)) =
     (if filter (group_member ws animOffsets (or_nil (kindData s) sn) fl kd) [0..<count data] = []
      then shown (map_of ms (WaterKey sn fl kd))
      else Some (concat (map (\<lambda>i. pos_block data i
                    (zOffset (tileLayerElevation e) (or0 (or_nil (drawZData s) sn) i)))
                  (filter (group_member ws animOffsets (or_nil (kindData s) sn) fl kd)
                     [0..<count data]))))"
proof -
  define gs where "gs = water_groups ws animOffsets (or_nil (kindData s) sn) (count data)"
  define is' where
    "is' = filter (group_member ws animOffsets (or_nil (kindData s) sn) fl kd) [0..<count data]"
  define F where "F = (\<lambda>ms' (gk :: bool \<times> int, g :: kind_group).
              if length (g_indices g) > 0
              then buildWaterTypeMesh e s sn (WaterKey sn (fst gk) (snd gk)) (g_indices g) data
                     animOffsets tex texW texH tax tay (g_isWaterfall g) (g_kinds g) ms'
              else ms')"
  have gi: "map_option g_indices (map_of gs (fl, kd)) = (if is' = [] then None else Some is')"
    unfolding gs_def is'_def by (rule water_groups_indices)
  have d: "distinct (map fst gs)"
    unfolding gs_def by (rule distinct_water_groups)
  have bw: "buildWaterMesh e ws s sn data animOffsets tex texW texH tax tay ms = foldl F ms gs"
    unfolding buildWaterMesh_def F_def gs_def ..
  have sh: "shown (map_of (foldl F ms gs) (WaterKey sn fl kd)) =
         (case map_of gs (fl, kd) of
            None \<Rightarrow> shown (map_of ms (WaterKey sn fl kd))
          | Some g \<Rightarrow>
              if g_indices g = [] then shown (map_of ms (WaterKey sn fl kd))
              else Some (concat (map (\<lambda>i. pos_block data i
                     (zOffset (tileLayerElevation e) (or0 (or_nil (drawZData s) sn) i)))
                     (g_indices g))))"
    by (rule foldl_groups_shown [OF d, where tex = tex and texW = texW and texH = texH
          and tax = tax and tay = tay and animOffsets = animOffsets])
       (simp add: F_def)
  show ?thesis
  proof (cases "map_of gs (fl, kd)")
    case None
    then have "is' = []" using gi by (simp split: if_splits)
    then show ?thesis
      unfolding bw sh None is'_def [symmetric] by simp
  next
    case (Some g)
    then have "is' \<noteq> []" "g_indices g = is'" using gi by (simp_all split: if_splits)
    then show ?thesis
      unfolding bw sh Some is'_def [symmetric] by simp
  qed
qed


lemma classify_set_hasWater_mem:
  "0 \<in> set (cl_hasWaterBySet (classify_set e s st p)) \<longleftrightarrow>
     0 \<in> set (cl_hasWaterBySet st) \<or>
     (fst p = 0 \<and>
      list_ex (is_water e 0 (or_nil (animData s) 0) (or_nil (kindData s) 0)) [0..<count (snd p)])"
proof (cases "count (snd p) = 0")
  case True
  then show ?thesis by (simp add: classify_set_def)
next
  case nz: False
  show ?thesis
  proof (cases "fst p = - 1")
    case True
    then show ?thesis using nz by (simp add: classify_set_def)
  next
    case f: False
    show ?thesis
    proof (cases "fst p = 0")
      case True
      then show ?thesis using nz f by (auto simp: classify_set_def Let_def)
    next
      case False
      then have "\<not> list_ex (is_water e (fst p) (or_nil (animData s) (fst p))
                    (or_nil (kindData s) (fst p))) [0..<count (snd p)]"
        by (simp add: list_ex_iff)
      then show ?thesis using nz f False by (auto simp: classify_set_def Let_def)
    qed
  qed
qed

lemma classify_set_hasWater_distinct:
  "distinct (cl_hasWaterBySet st) \<Longrightarrow> distinct (cl_hasWaterBySet (classify_set e s st p))"
  by (simp add: classify_set_def Let_def)

lemma foldl_classify_hasWater_distinct:
  "distinct (cl_hasWaterBySet st) \<Longrightarrow>
   distinct (cl_hasWaterBySet (foldl (classify_set e s) st ps))"
proof (induction ps rule: rev_induct)
  case Nil
  then show ?case by simp
next
  case (snoc p ps)
  then show ?case by (simp add: classify_set_hasWater_distinct)
qed

lemma foldl_classify_hasWater_mem:
  "0 \<in> set (cl_hasWaterBySet (foldl (classify_set e s) st ps)) \<longleftrightarrow>
     0 \<in> set (cl_hasWaterBySet st) \<or>
     (\<exists>d. (0, d) \<in> set ps \<and>
          list_ex (is_water e 0 (or_nil (animData s) 0) (or_nil (kindData s) 0)) [0..<count d])"
proof (induction ps rule: rev_induct)
  case Nil
  show ?case by simp
next
  case (snoc p ps)
  obtain k d where p: "p = (k, d)" by (cases p)
  show ?case
    using snoc.IH by (auto simp: classify_set_hasWater_mem p)
qed

lemma zero_list:
  assumes "distinct hs" and "set hs \<subseteq> {0::int}"
  shows "hs = (if 0 \<in> set hs then [0] else [])"
proof (cases hs)
  case Nil
  then show ?thesis by simp
next
  case (Cons a xs)
  then have a: "a = 0" using assms(2) by simp
  have "set xs \<subseteq> {0}" "0 \<notin> set xs" using Cons a assms by auto
  then have "xs = []" by (cases xs) auto
  then show ?thesis using Cons a by simp
qed

lemma rect_data_of_cong: "rectData s' = rectData s \<Longrightarrow> rect_data_of s' = rect_data_of s"
  by (rule ext) (simp add: rect_data_of_def)

lemma classify_hasWater_eq:
  assumes "distinct (map fst (rectData s))"
  shows "cl_hasWaterBySet (classify e s) =
         (if list_ex (is_water e 0 (or_nil (animData s) 0) (or_nil (kindData s) 0))
               [0..<count (rect_data_of s 0)]
          then [0] else [])"
proof -
  let ?W = "is_water e 0 (or_nil (animData s) 0) (or_nil (kindData s) 0)"
  let ?hs = "cl_hasWaterBySet (classify e s)"
  have d: "distinct ?hs"
    unfolding classify_def by (rule foldl_classify_hasWater_distinct) simp
  have m: "0 \<in> set ?hs \<longleftrightarrow> (\<exists>d. (0, d) \<in> set (rectData s) \<and> list_ex ?W [0..<count d])"
    unfolding classify_def foldl_classify_hasWater_mem by simp
  have "(\<exists>d. (0, d) \<in> set (rectData s) \<and> list_ex ?W [0..<count d]) \<longleftrightarrow>
        list_ex ?W [0..<count (rect_data_of s 0)]"
  proof
    assume "\<exists>d. (0, d) \<in> set (rectData s) \<and> list_ex ?W [0..<count d]"
    then obtain d where d: "(0, d) \<in> set (rectData s)" "list_ex ?W [0..<count d]" by blast
    have "rect_data_of s 0 = d" by (rule entry_is_rect_data [OF assms d(1)])
    then show "list_ex ?W [0..<count (rect_data_of s 0)]" using d(2) by simp
  next
    assume w: "list_ex ?W [0..<count (rect_data_of s 0)]"
    then have "count (rect_data_of s 0) \<noteq> 0" by (auto simp: list_ex_iff)
    then have "0 \<in> fst ` set (rectData s)"
      using absent_count [of 0 s] by fastforce
    then obtain d where d: "(0, d) \<in> set (rectData s)" by auto
    have "rect_data_of s 0 = d" by (rule entry_is_rect_data [OF assms d])
    then show "\<exists>d. (0, d) \<in> set (rectData s) \<and> list_ex ?W [0..<count d]"
      using d w by auto
  qed
  then have "0 \<in> set ?hs \<longleftrightarrow> list_ex ?W [0..<count (rect_data_of s 0)]"
    using m by simp
  then show ?thesis
    using zero_list [OF d classify_hasWater] by simp
qed

lemma water_texture_cong: "bitmaps s' = bitmaps s \<Longrightarrow> water_texture s' = water_texture s"
  by (rule ext) (simp add: water_texture_def)

lemma shown_cl_meshes_water:
  "shown (map_of (cl_meshes (classify e (start_rebuild s))) (WaterKey sn fl kd)) = None"
  by (simp add: classify_meshes_other map_of_hidden)

lemma build_water_set_cases:
  "snd (build_water_set e s tax tay (bitmaps s, ms) 0) =
     (case water_texture s 0 of
        None \<Rightarrow> ms
      | Some tex0 \<Rightarrow>
          (case ThreeWaterShader e of
             None \<Rightarrow> ms
           | Some ws \<Rightarrow>
               buildWaterMesh e ws s 0 (rect_data_of s 0) (or_nil (animData s) 0)
                 (nearest_filter tex0)
                 (tex_dim (img_width (the (tex_image tex0))))
                 (tex_dim (img_height (the (tex_image tex0)))) tax tay ms))"
  by (simp add: build_water_set_def water_texture_def Let_def split: option.splits)


lemma group_member_is_water:
  assumes "ThreeWaterShader e = Some ws" and "group_member ws a k fl kd ci"
  shows "is_water e 0 a k ci"
  using assms by (simp add: is_water_def group_member_def)

lemma shown_water_rebuild:
  assumes "distinct (map fst (rectData s))"
  shows "shown (map_of (meshes (rebuild e s)) (WaterKey sn fl kd)) =
     (case ThreeWaterShader e of
        None \<Rightarrow> None
      | Some ws \<Rightarrow>
          if sn = 0 \<and> water_texture s 0 \<noteq> None \<and>
             filter (group_member ws (or_nil (animData s) 0) (or_nil (kindData s) 0) fl kd)
               [0..<count (rect_data_of s 0)] \<noteq> []
          then Some (concat (map (\<lambda>i. pos_block (rect_data_of s 0) i
                         (zOffset (tileLayerElevation e) (or0 (or_nil (drawZData s) 0) i)))
                       (filter (group_member ws (or_nil (animData s) 0) (or_nil (kindData s) 0)
                                  fl kd)
                          [0..<count (rect_data_of s 0)])))
          else None)"
proof (cases "sn = 0")
  case False
  then have "shown (map_of (meshes (rebuild e s)) (WaterKey sn fl kd)) = None"
    by (simp add: meshes_rebuild_other)
  then show ?thesis using False by (simp split: option.splits)
next
  case sn: True
  define s1 where "s1 = start_rebuild s"
  define ms where "ms = cl_meshes (classify e s1)"
  define W where "W = is_water e 0 (or_nil (animData s) 0) (or_nil (kindData s) 0)"
  define n where "n = count (rect_data_of s 0)"
  have f: "rect_data_of s1 = rect_data_of s" "animData s1 = animData s"
    "kindData s1 = kindData s" "drawZData s1 = drawZData s" "bitmaps s1 = bitmaps s"
    "water_texture s1 = water_texture s" "tileAnimX s1 = tileAnimX s" "tileAnimY s1 = tileAnimY s"
  proof -
    show "rect_data_of s1 = rect_data_of s"
      unfolding s1_def by (rule rect_data_of_cong) simp
    show "water_texture s1 = water_texture s"
      unfolding s1_def by (rule water_texture_cong) simp
  qed (simp_all add: s1_def)
  have hid: "shown (map_of ms (WaterKey 0 fl kd)) = None"
    unfolding ms_def s1_def by (rule shown_cl_meshes_water)
  have d1: "distinct (map fst (rectData s1))"
    unfolding s1_def using assms by simp
  have hs: "cl_hasWaterBySet (classify e s1) = (if list_ex W [0..<n] then [0] else [])"
    using classify_hasWater_eq [OF d1, of e] unfolding f W_def n_def .
  have me: "meshes (rebuild e s) =
        snd (foldl (build_water_set e s1 (tileAnimX s) (tileAnimY s)) (bitmaps s1, ms)
               (map fst (own_entries (map (\<lambda>k. (k, ())) (if list_ex W [0..<n] then [0] else [])))))"
    unfolding rebuild_fields s1_def [symmetric] ms_def [symmetric] hs f ..
  show ?thesis
  proof (cases "list_ex W [0..<n]")
    case False
    then have "meshes (rebuild e s) = ms"
      unfolding me by (simp add: own_entries_def)
    then have l: "shown (map_of (meshes (rebuild e s)) (WaterKey sn fl kd)) = None"
      using hid sn by simp
    have "filter (group_member ws (or_nil (animData s) 0) (or_nil (kindData s) 0) fl kd)
            [0..<n] = []" if "ThreeWaterShader e = Some ws" for ws
    proof -
      have "\<not> group_member ws (or_nil (animData s) 0) (or_nil (kindData s) 0) fl kd i"
        if i: "i < n" for i
      proof
        assume "group_member ws (or_nil (animData s) 0) (or_nil (kindData s) 0) fl kd i"
        then have "W i"
          unfolding W_def by (rule group_member_is_water [OF \<open>ThreeWaterShader e = Some ws\<close>])
        then have "list_ex W [0..<n]"
          using i by (auto simp: list_ex_iff)
        then show False using False by simp
      qed
      then show ?thesis by (auto simp: filter_empty_conv)
    qed
    then show ?thesis
      unfolding l n_def by (simp split: option.splits)
  next
    case True
    then have me1: "meshes (rebuild e s) =
        snd (build_water_set e s1 (tileAnimX s) (tileAnimY s) (bitmaps s1, ms) 0)"
      unfolding me by simp
    have bc: "snd (build_water_set e s1 (tileAnimX s) (tileAnimY s) (bitmaps s1, ms) 0) =
       (case water_texture s 0 of
          None \<Rightarrow> ms
        | Some tex0 \<Rightarrow>
            (case ThreeWaterShader e of
               None \<Rightarrow> ms
             | Some ws \<Rightarrow>
                 buildWaterMesh e ws s1 0 (rect_data_of s 0) (or_nil (animData s) 0)
                   (nearest_filter tex0)
                   (tex_dim (img_width (the (tex_image tex0))))
                   (tex_dim (img_height (the (tex_image tex0)))) (tileAnimX s) (tileAnimY s) ms))"
      using build_water_set_cases [of e s1 "tileAnimX s" "tileAnimY s" ms] unfolding f(1,2,6) .
    show ?thesis
    proof (cases "ThreeWaterShader e")
      case None
      then have "meshes (rebuild e s) = ms"
        unfolding me1 bc by (simp split: option.splits)
      then show ?thesis using hid sn None by simp
    next
      case (Some ws)
      show ?thesis
      proof (cases "water_texture s 0")
        case None
        then have "meshes (rebuild e s) = ms"
          unfolding me1 bc by simp
        then show ?thesis using hid sn None Some by simp
      next
        case tex: (Some tex0)
        have "meshes (rebuild e s) =
              buildWaterMesh e ws s1 0 (rect_data_of s 0) (or_nil (animData s) 0)
                 (nearest_filter tex0)
                 (tex_dim (img_width (the (tex_image tex0))))
                 (tex_dim (img_height (the (tex_image tex0)))) (tileAnimX s) (tileAnimY s) ms"
          unfolding me1 bc tex Some by simp
        then have "shown (map_of (meshes (rebuild e s)) (WaterKey 0 fl kd)) =
          (if filter (group_member ws (or_nil (animData s) 0) (or_nil (kindData s) 0) fl kd)
                [0..<count (rect_data_of s 0)] = []
           then None
           else Some (concat (map (\<lambda>i. pos_block (rect_data_of s 0) i
                    (zOffset (tileLayerElevation e) (or0 (or_nil (drawZData s) 0) i)))
                  (filter (group_member ws (or_nil (animData s) 0) (or_nil (kindData s) 0) fl kd)
                     [0..<count (rect_data_of s 0)]))))"
          by (simp only: shown_buildWaterMesh f hid)
        then show ?thesis
          using sn tex Some by simp
      qed
    qed
  qed
qed


lemma group_member_call:
  assumes "i < length cs"
  shows "group_member ws (concat (map call_anim cs)) (map call_kind cs) fl kd i =
         group_member ws (call_anim (cs ! i)) [call_kind (cs ! i)] fl kd 0"
proof -
  have len: "length (concat (map call_anim cs)) = length cs * 2"
    by (rule length_concat_blocks) simp
  have a0: "concat (map call_anim cs) ! (i * 2 + 0) = call_anim (cs ! i) ! 0"
    by (rule concat_map_nth) (simp_all add: assms)
  have a1: "concat (map call_anim cs) ! (i * 2 + 1) = call_anim (cs ! i) ! 1"
    by (rule concat_map_nth) (simp_all add: assms)
  have x: "or0 (concat (map call_anim cs)) (i * 2) = or0 (call_anim (cs ! i)) (0 * 2)"
    using a0 assms(1) by (simp add: or0_def len)
  have y: "or0 (concat (map call_anim cs)) (i * 2 + 1) = or0 (call_anim (cs ! i)) (0 * 2 + 1)"
    using a1 assms(1) by (simp add: or0_def len)
  have k: "kind_at (map call_kind cs) i = kind_at [call_kind (cs ! i)] 0"
    using assms(1) by (simp add: kind_at_def)
  show ?thesis
    unfolding group_member_def water_rect_def Let_def x y k ..
qed

lemma filter_nth_upt:
  assumes "\<And>i. i < length xs \<Longrightarrow> P i = Q (xs ! i)"
  shows "map ((!) xs) (filter P [0..<length xs]) = filter Q xs"
  using assms
proof (induction xs rule: rev_induct)
  case Nil
  show ?case by simp
next
  case (snoc x xs)
  have pq: "P i = Q (xs ! i)" if "i < length xs" for i
    using snoc.prems [of i] that by (simp add: nth_append)
  have ih: "map ((!) xs) (filter P [0..<length xs]) = filter Q xs"
    by (rule snoc.IH) (rule pq)
  have a: "map ((!) (xs @ [x])) (filter P [0..<length xs]) =
           map ((!) xs) (filter P [0..<length xs])"
    by (rule map_cong) (auto simp: nth_append)
  have b: "P (length xs) = Q x"
    using snoc.prems [of "length xs"] by simp
  show ?case
    using a ih b by simp
qed

lemma water_pos_calls:
  assumes "stored_positions s 0 =
             concat (map (\<lambda>c. quad_coords (c_x c) (c_y c) (c_w c) (c_h c)) cs)"
    and "count (rect_data_of s 0) = length cs"
    and "or_nil (animData s) 0 = concat (map call_anim cs)"
    and "or_nil (kindData s) 0 = map call_kind cs"
    and "or_nil (drawZData s) 0 = map c_drawZ cs"
  shows "map (\<lambda>i. pos_block (rect_data_of s 0) i (zOffset el (or0 (or_nil (drawZData s) 0) i)))
           (filter (group_member ws (or_nil (animData s) 0) (or_nil (kindData s) 0) fl kd)
              [0..<count (rect_data_of s 0)]) =
         map (\<lambda>c. call_vertices c (zOffset el (c_drawZ c)))
           (filter (\<lambda>c. group_member ws (call_anim c) [call_kind c] fl kd 0) cs)"
proof -
  define P where "P = group_member ws (concat (map call_anim cs)) (map call_kind cs) fl kd"
  define Q where "Q = (\<lambda>c. group_member ws (call_anim c) [call_kind c] fl kd 0)"
  define g where "g = (\<lambda>c. call_vertices c (zOffset el (c_drawZ c)))"
  have pq: "P i = Q (cs ! i)" if "i < length cs" for i
    unfolding P_def Q_def by (rule group_member_call [OF that])
  have "map (\<lambda>i. pos_block (rect_data_of s 0) i (zOffset el (or0 (map c_drawZ cs) i)))
          (filter P [0..<length cs]) =
        map (\<lambda>i. g (cs ! i)) (filter P [0..<length cs])"
  proof (rule map_cong [OF refl])
    fix i
    assume "i \<in> set (filter P [0..<length cs])"
    then have i: "i < length cs" by simp
    have "or0 (map c_drawZ cs) i = c_drawZ (cs ! i)"
      using i by (simp add: or0_def)
    then show "pos_block (rect_data_of s 0) i (zOffset el (or0 (map c_drawZ cs) i)) = g (cs ! i)"
      using pos_block_call [OF assms(1,2) i] by (simp add: g_def)
  qed
  also have "\<dots> = map g (map ((!) cs) (filter P [0..<length cs]))"
    by simp
  also have "\<dots> = map g (filter Q cs)"
    using filter_nth_upt [of cs P Q] pq by simp
  finally show ?thesis
    unfolding assms(2,3,4,5) P_def Q_def g_def .
qed

lemma add_all_bitmaps [simp]: "bitmaps (add_all s cs) = bitmaps s"
proof (induction cs rule: rev_induct)
  case Nil
  show ?case by (simp add: add_all_def)
next
  case (snoc c cs)
  then show ?case by (simp add: add_all_snoc do_call_def setDrawZ_def)
qed

lemma shown_water_calls:
  assumes "layer_inv s0" and "s = add_all (clear s0) cs"
  shows "shown (map_of (meshes (flush e s)) (WaterKey sn fl kd)) =
         (if sn = 0 \<and> water_texture s 0 \<noteq> None
          then quads (map (\<lambda>c. call_vertices c (zOffset (tileLayerElevation e) (c_drawZ c)))
                  (water_calls e fl kd cs))
          else None)"
proof -
  define s' where "s' = snd (ensureArrayTexture s)"
  have nr: "needsRebuild s"
    unfolding assms(2) by (rule needsRebuild_add_all)
  have "layer_inv s"
    unfolding assms(2) using assms(1) by (intro layer_inv_add_all layer_inv_clear)
  then have d: "distinct (map fst (rectData s'))"
    by (simp add: layer_inv_def s'_def)
  have f: "rect_data_of s' = rect_data_of s" "animData s' = animData s"
    "kindData s' = kindData s" "drawZData s' = drawZData s" "water_texture s' = water_texture s"
  proof -
    show "rect_data_of s' = rect_data_of s"
      unfolding s'_def by (rule rect_data_of_cong) simp
    show "water_texture s' = water_texture s"
      unfolding s'_def by (rule water_texture_cong) simp
  qed (simp_all add: s'_def)
  note acc = accumulated [OF assms(1), of cs 0, folded assms(2)]
  have fl: "flush e s = rebuild e s'"
    unfolding s'_def by (rule flush_rebuilds [OF nr])
  note sw = shown_water_rebuild [OF d, of e sn fl kd, unfolded f, folded fl]
  show ?thesis
  proof (cases "ThreeWaterShader e")
    case None
    then show ?thesis
      unfolding sw by (simp add: water_calls_def)
  next
    case (Some ws)
    define is' where "is' = filter (group_member ws (or_nil (animData s) 0)
        (or_nil (kindData s) 0) fl kd) [0..<count (rect_data_of s 0)]"
    define ws_calls where "ws_calls =
        filter (\<lambda>c. group_member ws (call_anim c) [call_kind c] fl kd 0) (calls_to 0 cs)"
    define g where "g = (\<lambda>c. call_vertices c (zOffset (tileLayerElevation e) (c_drawZ c)))"
    have wp: "map (\<lambda>i. pos_block (rect_data_of s 0) i
                  (zOffset (tileLayerElevation e) (or0 (or_nil (drawZData s) 0) i))) is' =
              map g ws_calls"
      unfolding is'_def ws_calls_def g_def
      using acc by (intro water_pos_calls) simp_all
    then have "length is' = length ws_calls"
      by (metis length_map)
    then have em: "is' = [] \<longleftrightarrow> ws_calls = []" by auto
    have wc: "water_calls e fl kd cs = ws_calls"
      by (simp add: water_calls_def Some ws_calls_def)
    have "shown (map_of (meshes (flush e s)) (WaterKey sn fl kd)) =
          (if sn = 0 \<and> water_texture s 0 \<noteq> None \<and> is' \<noteq> []
           then Some (concat (map (\<lambda>i. pos_block (rect_data_of s 0) i
                  (zOffset (tileLayerElevation e) (or0 (or_nil (drawZData s) 0) i))) is'))
           else None)"
      unfolding sw Some is'_def by simp
    then show ?thesis
      unfolding wp wc em g_def [symmetric] by (simp add: quads_def)
  qed
qed

lemma shown_unified_calls:
  assumes "layer_inv s0" and "s = add_all (clear s0) cs"
  shows "shown (unifiedMesh (flush e s)) =
         quads (map (\<lambda>r. call_vertices (calls_to (setNumber r) cs ! index r)
                       (zOffset (\<not> mode3d e \<and> tileLayerElevation e) (drawZ r)))
                  (sort_by_drawZ (flat_rects e s)))"
proof -
  have nr: "needsRebuild s"
    unfolding assms(2) by (rule needsRebuild_add_all)
  have eq: "map (unified_pos_of e s) (sort_by_drawZ (flat_rects e s)) =
        map (\<lambda>r. call_vertices (calls_to (setNumber r) cs ! index r)
               (zOffset (\<not> mode3d e \<and> tileLayerElevation e) (drawZ r)))
          (sort_by_drawZ (flat_rects e s))"
  proof (rule map_cong [OF refl])
    fix r
    assume "r \<in> set (sort_by_drawZ (flat_rects e s))"
    then have "r \<in> set (flat_rects e (add_all (clear s0) cs))"
      using assms(2) by (simp add: sort_by_drawZ_def)
    then show "unified_pos_of e s r =
        call_vertices (calls_to (setNumber r) cs ! index r)
          (zOffset (\<not> mode3d e \<and> tileLayerElevation e) (drawZ r))"
      unfolding assms(2) by (rule unified_pos_calls [OF assms(1)])
  qed
  show ?thesis
    unfolding shown_unified [OF nr] eq ..
qed

lemma shown_shadow_calls:
  assumes "layer_inv s0" and "s = add_all (clear s0) cs"
  shows "shown (map_of (meshes (flush e s)) ShadowKey) =
         quads (map (\<lambda>c. call_vertices c
                       (zOffset (\<not> mode3d e \<and> tileLayerElevation e) (c_drawZ c)))
                  (calls_to (- 1) cs))"
proof -
  have nr: "needsRebuild s"
    unfolding assms(2) by (rule needsRebuild_add_all)
  have "layer_inv s"
    unfolding assms(2) using assms(1) by (intro layer_inv_add_all layer_inv_clear)
  then have d: "distinct (map fst (rectData s))"
    by (simp add: layer_inv_def)
  note acc = accumulated [OF assms(1), of cs "- 1", folded assms(2)]
  have cnt: "count (rect_data_of s (- 1)) = length (calls_to (- 1) cs)"
    using acc by simp
  have pa: "shadow_posArray e s (rect_data_of s (- 1)) =
        concat (map (\<lambda>c. call_vertices c
                       (zOffset (\<not> mode3d e \<and> tileLayerElevation e) (c_drawZ c)))
                  (calls_to (- 1) cs))"
    using acc by (intro shadow_posArray_calls) simp_all
  show ?thesis
    unfolding shown_shadow [OF nr d] cnt pa by (simp add: quads_def)
qed


lemma example_calls_to:
  "calls_to sn example_calls =
     (if sn = - 1 then [example_calls ! 0]
      else if sn = 0 then [example_calls ! 1, example_calls ! 3]
      else if sn = 1 then [example_calls ! 2] else [])"
  by (simp add: calls_to_def example_calls_def)

lemma example_calls_water:
  "water_call water_env (example_calls ! 1)"
  "\<not> water_call water_env (example_calls ! 2)"
  "\<not> water_call water_env (example_calls ! 3)"
  by (simp_all add: water_call_def is_water_def water_rect_def water_env_def example_shader_def
      example_calls_def call_anim_def call_kind_def or0_def kind_at_def)

lemma example_calls_unified:
  "{\<lparr>setNumber = sn, index = i, drawZ = c_drawZ (calls_to sn example_calls ! i)\<rparr> | sn i.
      sn \<noteq> - 1 \<and> i < length (calls_to sn example_calls) \<and>
      \<not> water_call water_env (calls_to sn example_calls ! i)} =
   {\<lparr>setNumber = 0, index = 1, drawZ = 0\<rparr>, \<lparr>setNumber = 1, index = 0, drawZ = 1\<rparr>}"
    (is "?L = ?R")
proof (rule set_eqI, rule iffI)
  fix r
  assume "r \<in> ?L"
  then obtain sn i where r: "r = \<lparr>setNumber = sn, index = i,
        drawZ = c_drawZ (calls_to sn example_calls ! i)\<rparr>" "sn \<noteq> - 1"
      "i < length (calls_to sn example_calls)"
      "\<not> water_call water_env (calls_to sn example_calls ! i)"
    by blast
  consider "sn = 0" | "sn = 1" | "sn \<noteq> 0 \<and> sn \<noteq> 1" by blast
  then show "r \<in> ?R"
  proof cases
    case 1
    then have "i = 0 \<or> i = 1" using r(3) by (auto simp: example_calls_to)
    then have "i = 1"
      using r(4) 1 example_calls_water(1) by (auto simp: example_calls_to)
    then show ?thesis
      using r(1) 1 by (simp add: example_calls_to) (simp add: example_calls_def)
  next
    case 2
    then have "i = 0" using r(3) by (simp add: example_calls_to)
    then show ?thesis
      using r(1) 2 by (simp add: example_calls_to) (simp add: example_calls_def)
  next
    case 3
    then show ?thesis using r(2,3) by (simp add: example_calls_to)
  qed
next
  fix r
  assume "r \<in> ?R"
  then consider "r = \<lparr>setNumber = 0, index = 1, drawZ = 0\<rparr>"
    | "r = \<lparr>setNumber = 1, index = 0, drawZ = 1\<rparr>" by blast
  then show "r \<in> ?L"
  proof cases
    case 1
    have "r = \<lparr>setNumber = 0, index = 1, drawZ = c_drawZ (calls_to 0 example_calls ! 1)\<rparr> \<and>
          (0::int) \<noteq> - 1 \<and> 1 < length (calls_to 0 example_calls) \<and>
          \<not> water_call water_env (calls_to 0 example_calls ! 1)"
      using 1 example_calls_water(3)
      by (simp add: example_calls_to) (simp add: example_calls_def)
    then show ?thesis by blast
  next
    case 2
    have "r = \<lparr>setNumber = 1, index = 0, drawZ = c_drawZ (calls_to 1 example_calls ! 0)\<rparr> \<and>
          (1::int) \<noteq> - 1 \<and> 0 < length (calls_to 1 example_calls) \<and>
          \<not> water_call water_env (calls_to 1 example_calls ! 0)"
      using 2 example_calls_water(2)
      by (simp add: example_calls_to) (simp add: example_calls_def)
    then show ?thesis by blast
  qed
qed



lemma textured_layer_facts:
  "layer_inv textured_layer"
  "water_texture (add_all (clear textured_layer) cs) 0 = Some example_tex"
  "water_texture (add_all (clear new_layer) cs) 0 = None"
proof -
  have "layer_inv new_layer" by (rule layer_inv_new)
  then show "layer_inv textured_layer"
    by (simp add: layer_inv_def textured_layer_def)
  show "water_texture (add_all (clear textured_layer) cs) 0 = Some example_tex"
    by (simp add: water_texture_def clear_def textured_layer_def bitmap_at_def example_tex_def)
  show "water_texture (add_all (clear new_layer) cs) 0 = None"
    by (simp add: water_texture_def clear_def new_layer_def bitmap_at_def)
qed

lemma example_calls_groups:
  "water_calls water_env False 3 example_calls = [example_calls ! 1]"
  by (simp add: water_calls_def water_env_def example_calls_to)
    (simp add: example_calls_def group_member_def water_rect_def example_shader_def
      call_anim_def call_kind_def or0_def kind_at_def)

lemma example_calls_vertices:
  "call_vertices (example_calls ! 0) 0 = [0, 0, 0, 48, 0, 0, 0, 48, 0, 48, 0, 0, 48, 48, 0, 0, 48, 0]"
  "call_vertices (example_calls ! 1) 0 =
     [48, 0, 0, 96, 0, 0, 48, 48, 0, 96, 0, 0, 96, 48, 0, 48, 48, 0]"
  by (simp_all add: example_calls_def call_vertices_def)

text \<open>
  Claim C1, as the code has it. After any sequence of \<^verbatim>\<open>addRect\<close> calls since the last
  \<^verbatim>\<open>clear()\<close>, \<^verbatim>\<open>flush()\<close> puts on the screen exactly the following quads, where
  \<open>shown\<close> is the position attribute of a mesh that exists and is visible, and \<open>quads\<close>
  is nothing for no quad.

  \<^item> The unified batch has no duplicates and its members are exactly the entries
    \<open>{setNumber, index, drawZ}\<close> of the calls that are not for set \<open>-1\<close> and that
    \<open>water_call\<close> rejects; the unified mesh shows the quads of these entries, in the
    order of the batch, and nothing when the batch is empty.
  \<^item> The shadow mesh shows the quads of the calls for set \<open>-1\<close>, in call order, and
    nothing when there is none.
  \<^item> The water mesh of set 0, waterfall flag \<open>fl\<close> and kind \<open>kd\<close> shows the quads of the
    calls for set 0 that the classifier accepts with this flag and kind, in call order,
    provided tileset 0 is bound with an image; it shows nothing otherwise, and so does
    every water mesh of another set. A mesh left from an earlier frame is therefore
    either rebuilt from the calls or hidden.

  \<open>water_call\<close> is the test that \<^verbatim>\<open>_flush\<close> makes: the set number is 0, the water shader
  module is loaded, and the classifier accepts the anim signature and the kind of the
  call. A rect of another set is never tested and goes to the unified batch whatever its
  signature, and an accepted rect of set 0 is in no mesh while tileset 0 has no image.
\<close>

theorem flush_partitions_added_rects:
  assumes "layer_inv s0" and "s = add_all (clear s0) cs"
  shows "(\<exists>rs. unifiedRects (flush e s) = Some rs \<and> distinct rs \<and>
            set rs =
              {\<lparr>setNumber = sn, index = i, drawZ = c_drawZ (calls_to sn cs ! i)\<rparr> | sn i.
                 sn \<noteq> - 1 \<and> i < length (calls_to sn cs) \<and>
                 \<not> water_call e (calls_to sn cs ! i)} \<and>
            shown (unifiedMesh (flush e s)) =
              quads (map (\<lambda>r. call_vertices (calls_to (setNumber r) cs ! index r)
                            (zOffset (\<not> mode3d e \<and> tileLayerElevation e) (drawZ r)))
                       rs)) \<and>
         shown (map_of (meshes (flush e s)) ShadowKey) =
           quads (map (\<lambda>c. call_vertices c
                         (zOffset (\<not> mode3d e \<and> tileLayerElevation e) (c_drawZ c)))
                    (calls_to (- 1) cs)) \<and>
         shown (map_of (meshes (flush e s)) (WaterKey sn' fl kd)) =
           (if sn' = 0 \<and> water_texture s 0 \<noteq> None
            then quads (map (\<lambda>c. call_vertices c (zOffset (tileLayerElevation e) (c_drawZ c)))
                    (water_calls e fl kd cs))
            else None)"
proof -
  let ?rs = "sort_by_drawZ (flat_rects e s)"
  have nr: "needsRebuild s"
    unfolding assms(2) by (rule needsRebuild_add_all)
  have "layer_inv s"
    unfolding assms(2) using assms(1) by (intro layer_inv_add_all layer_inv_clear)
  then have d: "distinct (map fst (rectData s))"
    by (simp add: layer_inv_def)
  have a: "unifiedRects (flush e s) = Some ?rs"
    by (rule unifiedRects_flush [OF nr])
  have b: "distinct ?rs"
    using distinct_flat_rects [OF d, of e] by (simp add: sort_by_drawZ_def)
  have c: "set ?rs =
             {\<lparr>setNumber = sn, index = i, drawZ = c_drawZ (calls_to sn cs ! i)\<rparr> | sn i.
                sn \<noteq> - 1 \<and> i < length (calls_to sn cs) \<and>
                \<not> water_call e (calls_to sn cs ! i)}"
    using flat_rects_calls [OF assms(1), of e cs] by (simp add: sort_by_drawZ_def assms(2))
  note u = shown_unified_calls [OF assms, of e]
  note sh = shown_shadow_calls [OF assms, of e]
  note w = shown_water_calls [OF assms, of e sn' fl kd]
  show ?thesis
    using a b c u sh w by blast
qed

theorem flush_partitions_added_rects_witness:
  "layer_inv textured_layer \<and>
   (\<exists>rs. unifiedRects (flush water_env (add_all (clear textured_layer) example_calls)) = Some rs \<and>
      distinct rs \<and>
      set rs = {\<lparr>setNumber = 0, index = 1, drawZ = 0\<rparr>, \<lparr>setNumber = 1, index = 0, drawZ = 1\<rparr>} \<and>
      shown (unifiedMesh (flush water_env (add_all (clear textured_layer) example_calls))) =
        quads (map (\<lambda>r. call_vertices (calls_to (setNumber r) example_calls ! index r) 0) rs)) \<and>
   shown (map_of (meshes (flush water_env (add_all (clear textured_layer) example_calls)))
            ShadowKey) =
     Some [0, 0, 0, 48, 0, 0, 0, 48, 0, 48, 0, 0, 48, 48, 0, 0, 48, 0] \<and>
   shown (map_of (meshes (flush water_env (add_all (clear textured_layer) example_calls)))
            (WaterKey 0 False 3)) =
     Some [48, 0, 0, 96, 0, 0, 48, 48, 0, 96, 0, 0, 96, 48, 0, 48, 48, 0] \<and>
   shown (map_of (meshes (flush water_env (add_all (clear textured_layer) example_calls)))
            (WaterKey 1 False 3)) = None"
proof -
  let ?s = "add_all (clear textured_layer) example_calls"
  have z: "zOffset (\<not> mode3d water_env \<and> tileLayerElevation water_env) k = 0"
    "zOffset (tileLayerElevation water_env) k = 0" for k
    by (simp_all add: zOffset_def water_env_def)
  note t0 = flush_partitions_added_rects [OF textured_layer_facts(1) refl,
      where cs = example_calls and e = water_env and sn' = 0 and fl = False and kd = 3,
      unfolded example_calls_unified z textured_layer_facts(2) example_calls_groups]
  note t1 = flush_partitions_added_rects [OF textured_layer_facts(1) refl,
      where cs = example_calls and e = water_env and sn' = 1 and fl = False and kd = 3,
      THEN conjunct2, THEN conjunct2]
  have sh: "map (\<lambda>c. call_vertices c 0) (calls_to (- 1) example_calls) =
            [[0, 0, 0, 48, 0, 0, 0, 48, 0, 48, 0, 0, 48, 48, 0, 0, 48, 0]]"
    by (simp add: example_calls_to example_calls_vertices)
  have a: "shown (map_of (meshes (flush water_env ?s)) ShadowKey) =
           Some [0, 0, 0, 48, 0, 0, 0, 48, 0, 48, 0, 0, 48, 48, 0, 0, 48, 0]"
    using t0 [THEN conjunct2, THEN conjunct1] unfolding sh by (simp add: quads_def)
  have b: "shown (map_of (meshes (flush water_env ?s)) (WaterKey 0 False 3)) =
           Some [48, 0, 0, 96, 0, 0, 48, 48, 0, 96, 0, 0, 96, 48, 0, 48, 48, 0]"
    using t0 [THEN conjunct2, THEN conjunct2] example_calls_vertices(2) by (simp add: quads_def)
  have c: "shown (map_of (meshes (flush water_env ?s)) (WaterKey 1 False 3)) = None"
    using t1 by simp
  show ?thesis
    using textured_layer_facts(1) t0 [THEN conjunct1] a b c by blast
qed

theorem water_signature_outside_set_zero:
  "c_setNumber (example_calls ! 2) = 1 \<and>
   water_rect example_shader (call_anim (example_calls ! 2)) [call_kind (example_calls ! 2)] 0 \<and>
   (\<exists>rs. unifiedRects (flush water_env (add_all (clear new_layer) example_calls)) = Some rs \<and>
         \<lparr>setNumber = 1, index = 0, drawZ = 1\<rparr> \<in> set rs) \<and>
   c_setNumber (example_calls ! 1) = 0 \<and>
   water_call water_env (example_calls ! 1) \<and>
   (\<exists>rs. unifiedRects (flush water_env (add_all (clear new_layer) example_calls)) = Some rs \<and>
         \<lparr>setNumber = 0, index = 0, drawZ = 0\<rparr> \<notin> set rs) \<and>
   (\<forall>sn fl kd.
      shown (map_of (meshes (flush water_env (add_all (clear new_layer) example_calls)))
               (WaterKey sn fl kd)) = None)"
proof -
  let ?s = "add_all (clear new_layer) example_calls"
  have u: "unifiedRects (flush water_env ?s) = Some (sort_by_drawZ (flat_rects water_env ?s))"
    by (rule unifiedRects_flush [OF needsRebuild_add_all])
  have st: "set (sort_by_drawZ (flat_rects water_env ?s)) =
      {\<lparr>setNumber = 0, index = 1, drawZ = 0\<rparr>, \<lparr>setNumber = 1, index = 0, drawZ = 1\<rparr>}"
    unfolding sort_by_drawZ_def set_sort flat_rects_calls [OF layer_inv_new]
    by (rule example_calls_unified)
  have a: "c_setNumber (example_calls ! 2) = 1" "c_setNumber (example_calls ! 1) = 0"
    by (simp_all add: example_calls_def)
  have b: "water_rect example_shader (call_anim (example_calls ! 2))
      [call_kind (example_calls ! 2)] 0"
    by (simp add: water_rect_def example_shader_def example_calls_def call_anim_def
        call_kind_def or0_def kind_at_def)
  have w: "shown (map_of (meshes (flush water_env ?s)) (WaterKey sn fl kd)) = None" for sn fl kd
    unfolding shown_water_calls [OF layer_inv_new refl] textured_layer_facts(3) by simp
  have m: "\<lparr>setNumber = 1, index = 0, drawZ = 1\<rparr> \<in> set (sort_by_drawZ (flat_rects water_env ?s))"
    "\<lparr>setNumber = 0, index = 0, drawZ = 0\<rparr> \<notin> set (sort_by_drawZ (flat_rects water_env ?s))"
    unfolding st by simp_all
  show ?thesis
    using u m a b example_calls_water(1) w by blast
qed

end
